theory Spec2Isabelle
  imports
    Complex_Main
    "HOL-Library.Log_Nat"
    "HOL-Library.Char_ord"
    "HOL-Library.List_Lexorder"
    "HOL-Library.Sublist"
begin

section \<open>Eclat frequent-itemset mining and rule generation (training-job/train_job.py)\<close>

text \<open>
  The development embeds the class \<^verbatim>\<open>EclatAlgorithm\<close> of
  \<^verbatim>\<open>src/training-job/train_job.py\<close> (the copy in \<^verbatim>\<open>src/app.py\<close> is
  the same text): \<^verbatim>\<open>__init__\<close>, \<^verbatim>\<open>fit\<close>, \<^verbatim>\<open>_build_tid_lists\<close>,
  \<^verbatim>\<open>_eclat_recursive\<close>, \<^verbatim>\<open>_generate_rules\<close> and \<^verbatim>\<open>get_results\<close>.
  The object is a record that every method takes and returns; a \<^verbatim>\<open>raise\<close> is the
  left summand of the result, and the half-updated object an exception leaves behind
  is dropped with it (the caller, \<^verbatim>\<open>train_and_save_model\<close>, abandons the object).
  Python names starting with an underscore lose it, and a Python name that is a
  constant of the library is changed (\<open>pfx\<close> for \<^verbatim>\<open>prefix\<close>, \<open>supp\<close> for \<^verbatim>\<open>support\<close> as
  a variable).
\<close>

subsection \<open>Python floats\<close>

text \<open>
  A Python float is an IEEE 754 binary64 number. A finite one is held here as the
  rational it denotes, and every arithmetic operation rounds its exact result to the
  nearest binary64 value, ties to the even significand, as the hardware does for
  \<^verbatim>\<open>float * float\<close> and \<^verbatim>\<open>float / float\<close> and CPython does for \<^verbatim>\<open>int / int\<close> and for
  the conversion of an int. Rounding keeps 53 significant bits from the exponent
  \<open>-1022\<close> up and a fixed spacing of \<open>2 powi (-1074)\<close> below it (the subnormal range).
  Overflow to infinity is outside the model: it takes a result of at least
  \<open>2 powi 1024\<close>, which no threshold, support or confidence of a run comes near.
\<close>

type_synonym pyfloat = rat

definition round_half_even :: "rat \<Rightarrow> int" where
  "round_half_even x =
     (let f = \<lfloor>x\<rfloor>; r = x - of_int f
      in if r < 1 / 2 then f else if 1 / 2 < r then f + 1 else if even f then f else f + 1)"

definition float_exponent :: "rat \<Rightarrow> int" where
  \<comment> \<open>the \<open>e\<close> with \<open>2 powi e \<le> \<bar>x\<bar> < 2 powi (e + 1)\<close>, for \<open>x \<noteq> 0\<close>\<close>
  "float_exponent x =
     (let p = \<bar>fst (quotient_of x)\<bar>; q = snd (quotient_of x); d = bitlen p - bitlen q
      in if 2 powi d \<le> \<bar>x\<bar> then d else d - 1)"

definition round_float :: "rat \<Rightarrow> pyfloat" where
  "round_float x =
     (if x = 0 then 0
      else let u = 2 powi (max (float_exponent x) (- 1022) - 52)
           in of_int (round_half_even (x / u)) * u)"

datatype error = ZeroDivisionError | KeyError

definition float_of_int :: "int \<Rightarrow> pyfloat" where
  \<comment> \<open>\<^verbatim>\<open>float(n)\<close>, the conversion Python applies to the int operand of a mixed operation\<close>
  "float_of_int n = round_float (of_int n)"

definition float_mul :: "pyfloat \<Rightarrow> pyfloat \<Rightarrow> pyfloat" where
  "float_mul x y = round_float (x * y)"

definition float_truediv :: "pyfloat \<Rightarrow> pyfloat \<Rightarrow> error + pyfloat" where
  \<comment> \<open>\<^verbatim>\<open>x / y\<close> on floats\<close>
  "float_truediv x y = (if y = 0 then Inl ZeroDivisionError else Inr (round_float (x / y)))"

definition int_truediv :: "int \<Rightarrow> int \<Rightarrow> error + pyfloat" where
  \<comment> \<open>\<^verbatim>\<open>a / b\<close> on ints: the exact quotient, rounded once\<close>
  "int_truediv a b =
     (if b = 0 then Inl ZeroDivisionError else Inr (round_float (of_int a / of_int b)))"

definition int_of_float :: "pyfloat \<Rightarrow> int" where
  \<comment> \<open>\<^verbatim>\<open>int(x)\<close>: truncation towards zero\<close>
  "int_of_float x = (if 0 \<le> x then \<lfloor>x\<rfloor> else \<lceil>x\<rceil>)"

subsection \<open>The data model\<close>

text \<open>
  An item is a \<^verbatim>\<open>str\<close>. Python compares strings by code point, which is the
  lexicographic order of their UTF-8 bytes: the order of \<open>string\<close> with the library's
  order on characters and lists.
\<close>

type_synonym item = string

record frequent_itemset =
  itemset :: "item list"
  support :: pyfloat
  tid_list :: "nat set"

text \<open>A rule's \<^verbatim>\<open>'support'\<close> key is the field \<open>rule_support\<close>.\<close>

record rule =
  antecedent :: "item list"
  consequent :: "item list"
  rule_support :: pyfloat
  confidence :: pyfloat
  lift :: pyfloat

text \<open>
  \<^verbatim>\<open>tid_lists\<close> is a \<^verbatim>\<open>defaultdict(set)\<close>; a Python dict iterates in the order its
  keys were first inserted, so it is an association list in that order.
\<close>

record eclat =
  min_support :: pyfloat
  min_confidence :: pyfloat
  frequent_itemsets :: "frequent_itemset list"
  rules :: "rule list"
  tid_lists :: "(item \<times> nat set) list"
  num_transactions :: nat

record results =
  res_frequent_itemsets :: "(item list \<times> pyfloat) list"
  res_rules :: "rule list"
  num_rules :: nat
  num_itemsets :: nat

definition init :: eclat where
  \<comment> \<open>\<^verbatim>\<open>__init__\<close>: the literals \<^verbatim>\<open>0.05\<close> and \<^verbatim>\<open>0.3\<close> are the nearest floats\<close>
  "init =
     \<lparr>min_support = round_float (5 / 100), min_confidence = round_float (3 / 10),
      frequent_itemsets = [], rules = [], tid_lists = [], num_transactions = 0\<rparr>"

subsection \<open>\<^verbatim>\<open>_build_tid_lists\<close>\<close>

fun add_tid :: "item \<Rightarrow> nat \<Rightarrow> (item \<times> nat set) list \<Rightarrow> (item \<times> nat set) list" where
  \<comment> \<open>\<^verbatim>\<open>self.tid_lists[item].add(tid)\<close>: a missing key is appended with the empty set first\<close>
  "add_tid i tid [] = [(i, {tid})]"
| "add_tid i tid ((k, tids) # kvs) =
     (if k = i then (k, insert tid tids) # kvs else (k, tids) # add_tid i tid kvs)"

definition build_tid_lists :: "eclat \<Rightarrow> item list list \<Rightarrow> eclat" where
  "build_tid_lists s transactions =
     s\<lparr>tid_lists :=
        fold (\<lambda>(tid, transaction) d. fold (\<lambda>i d. add_tid i tid d) transaction d)
          (enumerate 0 transactions) []\<rparr>"

subsection \<open>\<^verbatim>\<open>_eclat_recursive\<close>\<close>

definition emit :: "eclat \<Rightarrow> frequent_itemset \<Rightarrow> eclat" where
  \<comment> \<open>\<^verbatim>\<open>self.frequent_itemsets.append(fs)\<close>\<close>
  "emit s fs = s\<lparr>frequent_itemsets := frequent_itemsets s @ [fs]\<rparr>"

text \<open>
  The loop \<^verbatim>\<open>for i, item in enumerate(remaining_items)\<close> is the recursion on the list:
  at its head \<^verbatim>\<open>remaining_items[i+1:]\<close> is its tail. \<^verbatim>\<open>frequent_items[item]\<close> raises
  \<^verbatim>\<open>KeyError\<close> on a missing key and the support division raises on \<open>N = 0\<close>.
\<close>

fun eclat_recursive ::
  "eclat \<Rightarrow> item list \<Rightarrow> nat set \<Rightarrow> item list \<Rightarrow> (item \<times> nat set) list \<Rightarrow> int \<Rightarrow> error + eclat"
where
  "eclat_recursive s pfx prefix_tids [] frequent_items min_sup_count = Inr s"
| "eclat_recursive s pfx prefix_tids (i # remaining_items) frequent_items min_sup_count =
     (case map_of frequent_items i of
        None \<Rightarrow> Inl KeyError
      | Some tids \<Rightarrow>
          (let new_tids = prefix_tids \<inter> tids in
           if min_sup_count \<le> int (card new_tids) then
             (let new_itemset = pfx @ [i] in
              case int_truediv (int (card new_tids)) (int (num_transactions s)) of
                Inl e \<Rightarrow> Inl e
              | Inr supp \<Rightarrow>
                  (let s1 = emit s \<lparr>itemset = new_itemset, support = supp, tid_list = new_tids\<rparr> in
                   case (if length new_itemset < 5
                         then eclat_recursive s1 new_itemset new_tids remaining_items
                                frequent_items min_sup_count
                         else Inr s1) of
                     Inl e \<Rightarrow> Inl e
                   | Inr s2 \<Rightarrow>
                       eclat_recursive s2 pfx prefix_tids remaining_items
                         frequent_items min_sup_count))
           else eclat_recursive s pfx prefix_tids remaining_items
                  frequent_items min_sup_count))"

subsection \<open>\<^verbatim>\<open>fit\<close>\<close>

text \<open>
  \<^verbatim>\<open>fit\<close> is cut in two: \<open>mine\<close> is its steps 1 to 3 (the tid-lists, the frequent items
  and their size-1 itemsets, the depth-first search from every item in sorted order),
  and \<open>fit\<close>, defined after \<open>generate_rules\<close>, runs \<open>mine\<close> and then step 4. The local
  \<^verbatim>\<open>min_sup_count\<close> and the dict \<^verbatim>\<open>frequent_items\<close> are functions of the object, since
  they are computed from its fields.
\<close>

definition min_sup_count_of :: "eclat \<Rightarrow> int" where
  \<comment> \<open>\<^verbatim>\<open>int(self.min_support * self.num_transactions)\<close>\<close>
  "min_sup_count_of s =
     int_of_float (float_mul (min_support s) (float_of_int (int (num_transactions s))))"

definition frequent_items_of :: "eclat \<Rightarrow> (item \<times> nat set) list" where
  \<comment> \<open>the dict comprehension of step 2\<close>
  "frequent_items_of s =
     filter (\<lambda>(i, tids). min_sup_count_of s \<le> int (card tids)) (tid_lists s)"

fun add_singletons :: "eclat \<Rightarrow> (item \<times> nat set) list \<Rightarrow> error + eclat" where
  \<comment> \<open>\<^verbatim>\<open>for item, tids in frequent_items.items()\<close>\<close>
  "add_singletons s [] = Inr s"
| "add_singletons s ((i, tids) # rest) =
     (case int_truediv (int (card tids)) (int (num_transactions s)) of
        Inl e \<Rightarrow> Inl e
      | Inr supp \<Rightarrow>
          add_singletons (emit s \<lparr>itemset = [i], support = supp, tid_list = tids\<rparr>) rest)"

fun explore :: "eclat \<Rightarrow> item list \<Rightarrow> (item \<times> nat set) list \<Rightarrow> int \<Rightarrow> error + eclat" where
  \<comment> \<open>\<^verbatim>\<open>for i, item in enumerate(items)\<close>, \<^verbatim>\<open>items[i+1:]\<close> being the tail\<close>
  "explore s [] frequent_items min_sup_count = Inr s"
| "explore s (i # items) frequent_items min_sup_count =
     (case map_of frequent_items i of
        None \<Rightarrow> Inl KeyError
      | Some tids \<Rightarrow>
          (case eclat_recursive s [i] tids items frequent_items min_sup_count of
             Inl e \<Rightarrow> Inl e
           | Inr s' \<Rightarrow> explore s' items frequent_items min_sup_count))"

definition mine :: "eclat \<Rightarrow> item list list \<Rightarrow> error + eclat" where
  \<comment> \<open>steps 1 to 3 of \<^verbatim>\<open>fit\<close>, up to the call of \<^verbatim>\<open>_generate_rules\<close>\<close>
  "mine s transactions =
     (let s1 = build_tid_lists (s\<lparr>num_transactions := length transactions\<rparr>) transactions;
          frequent_items = frequent_items_of s1
      in case add_singletons s1 frequent_items of
           Inl e \<Rightarrow> Inl e
         | Inr s2 \<Rightarrow>
             explore s2 (sort (map fst frequent_items)) frequent_items (min_sup_count_of s1))"

subsection \<open>\<^verbatim>\<open>_generate_rules\<close>\<close>

definition itemset_support_of :: "frequent_itemset list \<Rightarrow> (item set \<rightharpoonup> pyfloat)" where
  \<comment> \<open>the dict keyed by \<^verbatim>\<open>frozenset(fs['itemset'])\<close>; a later entry overwrites\<close>
  "itemset_support_of fis = fold (\<lambda>fs m. m(set (itemset fs) \<mapsto> support fs)) fis Map.empty"

fun combinations :: "'a list \<Rightarrow> nat \<Rightarrow> 'a list list" where
  \<comment> \<open>\<^verbatim>\<open>itertools.combinations\<close>: the subsequences of the given length, by position\<close>
  "combinations xs 0 = [[]]"
| "combinations [] (Suc r) = []"
| "combinations (x # xs) (Suc r) = map ((#) x) (combinations xs r) @ combinations xs (Suc r)"

definition default_support :: pyfloat where
  \<comment> \<open>the literal \<^verbatim>\<open>0.0001\<close>\<close>
  "default_support = round_float (1 / 10000)"

definition split_rule ::
  "(item set \<rightharpoonup> pyfloat) \<Rightarrow> pyfloat \<Rightarrow> item list \<Rightarrow> pyfloat \<Rightarrow> item list \<Rightarrow> error + rule option"
where
  \<comment> \<open>the body of the innermost loop: the rule appended for one antecedent, if any\<close>
  "split_rule itemset_support min_conf iset itemset_sup ante =
     (let conseq = filter (\<lambda>i. i \<notin> set ante) iset in
      case itemset_support (set ante) of
        None \<Rightarrow> Inr None
      | Some antecedent_sup \<Rightarrow>
          (case float_truediv itemset_sup antecedent_sup of
             Inl e \<Rightarrow> Inl e
           | Inr conf \<Rightarrow>
               if min_conf \<le> conf then
                 (let consequent_sup =
                        (case itemset_support (set conseq) of
                           None \<Rightarrow> default_support
                         | Some v \<Rightarrow> v)
                  in case float_truediv conf consequent_sup of
                       Inl e \<Rightarrow> Inl e
                     | Inr l \<Rightarrow>
                         Inr (Some \<lparr>antecedent = ante, consequent = conseq,
                                    rule_support = itemset_sup, confidence = conf, lift = l\<rparr>))
               else Inr None))"

definition antecedents :: "item list \<Rightarrow> item list list" where
  \<comment> \<open>\<^verbatim>\<open>for i in range(1, len(itemset)): for antecedent in combinations(itemset, i)\<close>\<close>
  "antecedents iset = concat (map (combinations iset) [1..<length iset])"

fun rules_of_splits ::
  "(item set \<rightharpoonup> pyfloat) \<Rightarrow> pyfloat \<Rightarrow> item list \<Rightarrow> pyfloat \<Rightarrow> rule list \<Rightarrow> item list list
     \<Rightarrow> error + rule list"
where
  "rules_of_splits itemset_support min_conf iset itemset_sup rs [] = Inr rs"
| "rules_of_splits itemset_support min_conf iset itemset_sup rs (ante # rest) =
     (case split_rule itemset_support min_conf iset itemset_sup ante of
        Inl e \<Rightarrow> Inl e
      | Inr None \<Rightarrow> rules_of_splits itemset_support min_conf iset itemset_sup rs rest
      | Inr (Some r) \<Rightarrow>
          rules_of_splits itemset_support min_conf iset itemset_sup (rs @ [r]) rest)"

fun rules_of_itemsets ::
  "(item set \<rightharpoonup> pyfloat) \<Rightarrow> pyfloat \<Rightarrow> rule list \<Rightarrow> frequent_itemset list \<Rightarrow> error + rule list"
where
  \<comment> \<open>\<^verbatim>\<open>for fs in self.frequent_itemsets\<close>, skipping the itemsets of size below 2\<close>
  "rules_of_itemsets itemset_support min_conf rs [] = Inr rs"
| "rules_of_itemsets itemset_support min_conf rs (fs # rest) =
     (if length (itemset fs) < 2 then rules_of_itemsets itemset_support min_conf rs rest
      else case rules_of_splits itemset_support min_conf (itemset fs) (support fs) rs
                  (antecedents (itemset fs)) of
             Inl e \<Rightarrow> Inl e
           | Inr rs' \<Rightarrow> rules_of_itemsets itemset_support min_conf rs' rest)"

definition generate_rules :: "eclat \<Rightarrow> error + eclat" where
  "generate_rules s =
     (case rules_of_itemsets (itemset_support_of (frequent_itemsets s)) (min_confidence s) []
             (frequent_itemsets s) of
        Inl e \<Rightarrow> Inl e
      | Inr rs \<Rightarrow> Inr (s\<lparr>rules := rs\<rparr>))"

definition fit :: "eclat \<Rightarrow> item list list \<Rightarrow> error + eclat" where
  "fit s transactions =
     (case mine s transactions of Inl e \<Rightarrow> Inl e | Inr s' \<Rightarrow> generate_rules s')"

subsection \<open>\<^verbatim>\<open>get_results\<close>\<close>

definition get_results :: "eclat \<Rightarrow> results" where
  "get_results s =
     \<lparr>res_frequent_itemsets = map (\<lambda>fs. (itemset fs, support fs)) (frequent_itemsets s),
      res_rules = rules s,
      num_rules = length (rules s),
      num_itemsets = length (frequent_itemsets s)\<rparr>"

subsection \<open>Notions the properties are stated with\<close>

text \<open>
  These are not code of the repository. \<open>cover\<close> is the tid-list the glossary of the
  specification defines for a set of items, \<open>observed\<close> the items of the input, and
  \<open>exact_support\<close> the fraction of transactions that contain all items of a set, as an
  exact rational. \<open>threshold\<close> names the value \<^verbatim>\<open>fit\<close> binds to \<^verbatim>\<open>min_sup_count\<close>.
  \<open>well_mined\<close> describes an entry of \<^verbatim>\<open>frequent_itemsets\<close> by its content alone.
\<close>

definition cover :: "item list list \<Rightarrow> item set \<Rightarrow> nat set" where
  "cover transactions S = {tid \<in> {..<length transactions}. S \<subseteq> set (transactions ! tid)}"

definition observed :: "item list list \<Rightarrow> item set" where
  "observed transactions = \<Union> (set ` set transactions)"

definition exact_support :: "item list list \<Rightarrow> item set \<Rightarrow> rat" where
  "exact_support transactions S =
     of_nat (card (cover transactions S)) / of_nat (length transactions)"

definition threshold :: "eclat \<Rightarrow> item list list \<Rightarrow> int" where
  "threshold s transactions = min_sup_count_of (s\<lparr>num_transactions := length transactions\<rparr>)"

definition well_mined :: "eclat \<Rightarrow> item list list \<Rightarrow> frequent_itemset \<Rightarrow> bool" where
  \<comment> \<open>strictly sorted observed items, at most 5, whose tid-list reaches the threshold,
     recorded with that tid-list and its fraction of \<open>N\<close> as a float\<close>
  "well_mined s transactions fs \<longleftrightarrow>
     itemset fs \<noteq> [] \<and> sorted_wrt (<) (itemset fs) \<and> length (itemset fs) \<le> 5 \<and>
     set (itemset fs) \<subseteq> observed transactions \<and>
     threshold s transactions \<le> int (card (cover transactions (set (itemset fs)))) \<and>
     tid_list fs = cover transactions (set (itemset fs)) \<and>
     support fs =
       round_float (of_nat (card (tid_list fs)) / of_nat (length transactions))"

subsection \<open>The lists a run appends\<close>

text \<open>
  The methods append to \<^verbatim>\<open>self.frequent_itemsets\<close> as they go. The functions below give
  what is appended as a value, for the proofs: \<open>singletons\<close> for the loop of
  \<open>add_singletons\<close>, \<open>extensions\<close> for one call of \<open>eclat_recursive\<close> (with the tid-list
  of an item given by a function), \<open>explorations\<close> for the loop of \<open>explore\<close> and \<open>mined\<close>
  for steps 2 and 3 of \<^verbatim>\<open>fit\<close> together. Each is proved equal to what the code appends
  when no lookup and no division fails (lemmas \<open>add_singletons_singletons\<close>,
  \<open>eclat_recursive_extensions\<close>, \<open>explore_explorations\<close>, \<open>mine_mined\<close>).
\<close>

definition tidmap :: "(item \<times> nat set) list \<Rightarrow> item \<Rightarrow> nat set" where
  \<comment> \<open>how a \<^verbatim>\<open>defaultdict(set)\<close> reads: the empty set for a missing key\<close>
  "tidmap d i = (case map_of d i of None \<Rightarrow> {} | Some T \<Rightarrow> T)"

definition indexed :: "eclat \<Rightarrow> item list list \<Rightarrow> eclat" where
  \<comment> \<open>the object after step 1 of \<^verbatim>\<open>fit\<close>\<close>
  "indexed s transactions =
     build_tid_lists (s\<lparr>num_transactions := length transactions\<rparr>) transactions"

definition singletons :: "nat \<Rightarrow> (item \<times> nat set) list \<Rightarrow> frequent_itemset list" where
  \<comment> \<open>what the loop of \<open>add_singletons\<close> appends when no division fails\<close>
  "singletons n frequent_items =
     map (\<lambda>(i, tids). \<lparr>itemset = [i],
                        support = round_float (of_int (int (card tids)) / of_int (int n)),
                        tid_list = tids\<rparr>) frequent_items"

fun extensions ::
  "nat \<Rightarrow> (item \<Rightarrow> nat set) \<Rightarrow> int \<Rightarrow> item list \<Rightarrow> nat set \<Rightarrow> item list \<Rightarrow> frequent_itemset list"
where
  "extensions n tids_of m pfx prefix_tids [] = []"
| "extensions n tids_of m pfx prefix_tids (i # remaining_items) =
     (let new_tids = prefix_tids \<inter> tids_of i in
      if m \<le> int (card new_tids) then
        \<lparr>itemset = pfx @ [i],
         support = round_float (of_int (int (card new_tids)) / of_int (int n)),
         tid_list = new_tids\<rparr>
        # (if length (pfx @ [i]) < 5
           then extensions n tids_of m (pfx @ [i]) new_tids remaining_items else [])
        @ extensions n tids_of m pfx prefix_tids remaining_items
      else extensions n tids_of m pfx prefix_tids remaining_items)"

fun explorations ::
  "nat \<Rightarrow> (item \<Rightarrow> nat set) \<Rightarrow> int \<Rightarrow> item list \<Rightarrow> frequent_itemset list"
where
  "explorations n tids_of m [] = []"
| "explorations n tids_of m (i # items) =
     extensions n tids_of m [i] (tids_of i) items @ explorations n tids_of m items"

definition mined :: "eclat \<Rightarrow> item list list \<Rightarrow> frequent_itemset list" where
  \<comment> \<open>what steps 2 and 3 of \<^verbatim>\<open>fit\<close> append (lemma \<open>mine_mined\<close>)\<close>
  "mined s transactions =
     (let frequent_items = frequent_items_of (indexed s transactions)
      in singletons (length transactions) frequent_items
         @ explorations (length transactions) (\<lambda>i. cover transactions {i})
             (threshold s transactions) (sort (map fst frequent_items)))"

subsection \<open>Concrete inputs\<close>

text \<open>
  The worked example of the specification (each transaction in the order written,
  \<^verbatim>\<open>min_support = 0.4\<close>, \<^verbatim>\<open>min_confidence = 0.5\<close>) with the object \<^verbatim>\<open>fit\<close> leaves; five
  transactions on which the float product \<^verbatim>\<open>0.6 * 5\<close> rounds up to \<open>3\<close>; and two
  transactions with no item in common, mined with the default parameters.
  \<open>round_float (4 / 5)\<close> is the float the literal \<^verbatim>\<open>0.8\<close> denotes, and so on.
\<close>

definition worked_transactions :: "item list list" where
  "worked_transactions =
     [[''A'', ''B''], [''A'', ''B''], [''A'', ''C''], [''B'', ''C''], [''A'', ''B'', ''C'']]"

definition worked_eclat :: eclat where
  \<comment> \<open>a fresh object with \<^verbatim>\<open>min_support = 0.4\<close> and \<^verbatim>\<open>min_confidence = 0.5\<close>\<close>
  "worked_eclat =
     init\<lparr>min_support := round_float (4 / 10), min_confidence := round_float (5 / 10)\<rparr>"

definition worked_itemsets :: "frequent_itemset list" where
  "worked_itemsets =
     [\<lparr>itemset = [''A''], support = round_float (4 / 5), tid_list = {0, 1, 2, 4}\<rparr>,
      \<lparr>itemset = [''B''], support = round_float (4 / 5), tid_list = {0, 1, 3, 4}\<rparr>,
      \<lparr>itemset = [''C''], support = round_float (3 / 5), tid_list = {2, 3, 4}\<rparr>,
      \<lparr>itemset = [''A'', ''B''], support = round_float (3 / 5), tid_list = {0, 1, 4}\<rparr>,
      \<lparr>itemset = [''A'', ''C''], support = round_float (2 / 5), tid_list = {2, 4}\<rparr>,
      \<lparr>itemset = [''B'', ''C''], support = round_float (2 / 5), tid_list = {3, 4}\<rparr>]"

definition worked_rules :: "rule list" where
  "worked_rules =
     [\<lparr>antecedent = [''A''], consequent = [''B''], rule_support = round_float (3 / 5),
       confidence = 3 / 4 - 1 / 2 ^ 53, lift = 15 / 16 - 1 / 2 ^ 52\<rparr>,
      \<lparr>antecedent = [''B''], consequent = [''A''], rule_support = round_float (3 / 5),
       confidence = 3 / 4 - 1 / 2 ^ 53, lift = 15 / 16 - 1 / 2 ^ 52\<rparr>,
      \<lparr>antecedent = [''A''], consequent = [''C''], rule_support = round_float (2 / 5),
       confidence = 1 / 2, lift = round_float (5 / 6)\<rparr>,
      \<lparr>antecedent = [''C''], consequent = [''A''], rule_support = round_float (2 / 5),
       confidence = 3002399751580331 / 4503599627370496, lift = round_float (5 / 6)\<rparr>,
      \<lparr>antecedent = [''B''], consequent = [''C''], rule_support = round_float (2 / 5),
       confidence = 1 / 2, lift = round_float (5 / 6)\<rparr>,
      \<lparr>antecedent = [''C''], consequent = [''B''], rule_support = round_float (2 / 5),
       confidence = 3002399751580331 / 4503599627370496, lift = round_float (5 / 6)\<rparr>]"

definition worked_result :: eclat where
  \<comment> \<open>the object after \<^verbatim>\<open>fit\<close> on the worked example (lemma \<open>worked_fit\<close>)\<close>
  "worked_result =
     \<lparr>min_support = round_float (4 / 10), min_confidence = round_float (5 / 10),
      frequent_itemsets = worked_itemsets, rules = worked_rules,
      tid_lists = [(''A'', {0, 1, 2, 4}), (''B'', {0, 1, 3, 4}), (''C'', {2, 3, 4})],
      num_transactions = 5\<rparr>"

definition rounding_transactions :: "item list list" where
  \<comment> \<open>five transactions, \<open>A\<close> in two of them\<close>
  "rounding_transactions = [[''A''], [''A''], [''B''], [''B''], [''B'']]"

definition rounding_eclat :: eclat where
  \<comment> \<open>a fresh object with \<^verbatim>\<open>min_support = 0.6\<close>\<close>
  "rounding_eclat = init\<lparr>min_support := round_float (6 / 10)\<rparr>"



subsection \<open>Rounding\<close>

lemma round_half_even_of_int: "round_half_even (of_int n) = n"
  by (simp add: round_half_even_def)

lemma round_half_even_range:
  "\<lfloor>x\<rfloor> \<le> round_half_even x \<and> round_half_even x \<le> \<lfloor>x\<rfloor> + 1"
  by (simp add: round_half_even_def Let_def)

lemma round_half_even_mono:
  assumes "x \<le> y"
  shows "round_half_even x \<le> round_half_even y"
proof (cases "\<lfloor>x\<rfloor> = \<lfloor>y\<rfloor>")
  case True
  with assms show ?thesis
    by (auto simp: round_half_even_def Let_def)
next
  case False
  with assms have "\<lfloor>x\<rfloor> + 1 \<le> \<lfloor>y\<rfloor>"
    using floor_mono [of x y] by linarith
  then show ?thesis
    using round_half_even_range [of x] round_half_even_range [of y] by linarith
qed

lemma pow2_pos: "0 < (2::rat) powi e"
  by (simp add: power_int_def)

lemma pow2_mono: "a \<le> b \<Longrightarrow> (2::rat) powi a \<le> 2 powi b"
  by (rule power_int_increasing) simp_all

lemma pow2_strict_mono: "a < b \<Longrightarrow> (2::rat) powi a < 2 powi b"
  by (rule power_int_strict_increasing) simp_all

lemma bitlen_pow2_bounds:
  assumes "0 < n"
  shows "(2::rat) powi (bitlen n - 1) \<le> of_int n" "of_int n < (2::rat) powi (bitlen n)"
proof -
  from bitlen_bounds [OF assms]
  have a: "2 ^ nat (bitlen n - 1) \<le> n" and b: "n < 2 ^ nat (bitlen n)" by simp_all
  have n1: "1 \<le> bitlen n" using assms bitlen_eq_zero_iff [of n] bitlen_nonneg [of n] by linarith
  have "(of_int (2 ^ nat (bitlen n - 1)) :: rat) \<le> of_int n" using a by (simp only: of_int_le_iff)
  then show "(2::rat) powi (bitlen n - 1) \<le> of_int n"
    using n1 by (simp add: power_int_def)
  have "(of_int n :: rat) < of_int (2 ^ nat (bitlen n))" using b by (simp only: of_int_less_iff)
  then show "of_int n < (2::rat) powi (bitlen n)"
    using n1 by (simp add: power_int_def)
qed

lemma float_exponent_bounds:
  assumes "0 < x"
  shows "2 powi (float_exponent x) \<le> x \<and> x < 2 powi (float_exponent x + 1)"
proof -
  obtain p q where pq: "quotient_of x = (p, q)" by (cases "quotient_of x")
  have q: "0 < q" using quotient_of_denom_pos [OF pq] .
  have x: "x = of_int p / of_int q" using quotient_of_div [OF pq] .
  have p: "0 < p" using assms q x by (simp add: zero_less_divide_iff)
  define d where "d = bitlen p - bitlen q"
  note bp = bitlen_pow2_bounds [OF p] and bq = bitlen_pow2_bounds [OF q]
  have qpos: "(0::rat) < of_int q" using q by simp
  have "x < 2 powi (bitlen p) / 2 powi (bitlen q - 1)"
    unfolding x using p bp(2) bq(1) pow2_pos [of "bitlen q - 1"]
    by (intro frac_less) simp_all
  also have "\<dots> = 2 powi (bitlen p - (bitlen q - 1))"
    by (rule power_int_diff [symmetric]) simp
  also have "bitlen p - (bitlen q - 1) = d + 1" by (simp add: d_def)
  finally have up: "x < 2 powi (d + 1)" .
  have "2 powi (bitlen p - 1) / 2 powi (bitlen q) < x"
    unfolding x using qpos bp(1) bq(2) pow2_pos [of "bitlen p - 1"]
    by (intro frac_less2) simp_all
  moreover have "(2::rat) powi (bitlen p - 1) / 2 powi (bitlen q) = 2 powi (bitlen p - 1 - bitlen q)"
    by (rule power_int_diff [symmetric]) simp
  moreover have "bitlen p - 1 - bitlen q = d - 1" by (simp add: d_def)
  ultimately have lo: "2 powi (d - 1) < x" by simp
  have fe: "float_exponent x = (if 2 powi d \<le> x then d else d - 1)"
    using assms p by (simp add: float_exponent_def pq d_def Let_def)
  show ?thesis
    using up lo by (auto simp: fe not_le)
qed

lemma float_exponent_unique:
  assumes "2 powi e \<le> x" "x < 2 powi (e + 1)"
  shows "float_exponent x = e"
proof -
  have x: "0 < x" using assms(1) pow2_pos [of e] by linarith
  note b = float_exponent_bounds [OF x]
  have "\<not> float_exponent x < e"
  proof
    assume "float_exponent x < e"
    then have "2 powi (float_exponent x + 1) \<le> (2::rat) powi e" by (intro pow2_mono) simp
    with b assms show False by linarith
  qed
  moreover have "\<not> e < float_exponent x"
  proof
    assume "e < float_exponent x"
    then have "2 powi (e + 1) \<le> (2::rat) powi (float_exponent x)" by (intro pow2_mono) simp
    with b assms show False by linarith
  qed
  ultimately show ?thesis by linarith
qed

lemma float_exponent_mono:
  assumes "0 < x" "x \<le> y"
  shows "float_exponent x \<le> float_exponent y"
proof (rule ccontr)
  assume "\<not> ?thesis"
  then have "float_exponent y + 1 \<le> float_exponent x" by simp
  then have "2 powi (float_exponent y + 1) \<le> (2::rat) powi (float_exponent x)" by (rule pow2_mono)
  moreover have "0 < y" using assms by simp
  ultimately show False
    using float_exponent_bounds [OF assms(1)] float_exponent_bounds [OF \<open>0 < y\<close>] assms(2) by linarith
qed

lemma round_float_eq:
  assumes "2 powi e \<le> x" "x < 2 powi (e + 1)" "- 1022 \<le> e"
  shows "round_float x = of_int (round_half_even (x / 2 powi (e - 52))) * 2 powi (e - 52)"
proof -
  have "0 < x" using assms(1) pow2_pos [of e] by linarith
  then show ?thesis
    using float_exponent_unique [OF assms(1,2)] assms(3)
    by (simp add: round_float_def Let_def max_def)
qed

lemma round_float_nonneg:
  assumes "0 \<le> x"
  shows "0 \<le> round_float x"
proof (cases "x = 0")
  case True
  then show ?thesis by (simp add: round_float_def)
next
  case False
  define u :: rat where "u = 2 powi (max (float_exponent x) (- 1022) - 52)"
  have u: "0 < u" unfolding u_def by (rule pow2_pos)
  have "0 \<le> x / u" using assms u by simp
  then have "round_half_even 0 \<le> round_half_even (x / u)" by (rule round_half_even_mono)
  then have "0 \<le> round_half_even (x / u)" by (simp add: round_half_even_def)
  then show ?thesis
    using False u by (simp add: round_float_def Let_def u_def [symmetric])
qed

lemma round_float_mono:
  assumes "0 \<le> x" "x \<le> y"
  shows "round_float x \<le> round_float y"
proof (cases "x = 0")
  case True
  then show ?thesis using round_float_nonneg [of y] assms by (simp add: round_float_def)
next
  case False
  then have x: "0 < x" and y: "0 < y" using assms by simp_all
  define ex where "ex = max (float_exponent x) (- 1022)"
  define ey where "ey = max (float_exponent y) (- 1022)"
  have rx: "round_float x = of_int (round_half_even (x / 2 powi (ex - 52))) * 2 powi (ex - 52)"
    using x by (simp add: round_float_def Let_def ex_def)
  have ry: "round_float y = of_int (round_half_even (y / 2 powi (ey - 52))) * 2 powi (ey - 52)"
    using y by (simp add: round_float_def Let_def ey_def)
  have le: "ex \<le> ey"
    using float_exponent_mono [OF x assms(2)] by (simp add: ex_def ey_def)
  show ?thesis
  proof (cases "ex = ey")
    case True
    have "x / 2 powi (ey - 52) \<le> y / 2 powi (ey - 52)"
      using assms(2) pow2_pos [of "ey - 52"] by (simp add: divide_right_mono)
    then have "round_half_even (x / 2 powi (ey - 52)) \<le> round_half_even (y / 2 powi (ey - 52))"
      by (rule round_half_even_mono)
    then show ?thesis
      unfolding rx ry True using pow2_pos [of "ey - 52"] by simp
  next
    case False
    with le have lt: "ex < ey" by simp
    then have ey: "ey = float_exponent y" by (simp add: ey_def ex_def max_def split: if_splits)
    have "x < 2 powi (float_exponent x + 1)" using float_exponent_bounds [OF x] by simp
    also have "\<dots> \<le> 2 powi (ex + 1)" by (rule pow2_mono) (simp add: ex_def)
    finally have xb: "x < 2 powi (ex + 1)" .
    have "x / 2 powi (ex - 52) \<le> 2 powi (ex + 1) / 2 powi (ex - 52)"
      using xb pow2_pos [of "ex - 52"] by (simp add: divide_right_mono)
    also have "\<dots> = of_int (2 ^ 53)"
      by (simp add: power_int_diff [symmetric])
    finally have "round_half_even (x / 2 powi (ex - 52)) \<le> round_half_even (of_int (2 ^ 53))"
      by (rule round_half_even_mono)
    then have "round_half_even (x / 2 powi (ex - 52)) \<le> 2 ^ 53"
      by (simp only: round_half_even_of_int)
    then have "(of_int (round_half_even (x / 2 powi (ex - 52))) :: rat) \<le> of_int (2 ^ 53)"
      by (simp only: of_int_le_iff)
    then have "round_float x \<le> of_int (2 ^ 53) * 2 powi (ex - 52)"
      unfolding rx using pow2_pos [of "ex - 52"] by (simp add: mult_right_mono)
    also have "\<dots> = 2 powi (ex + 1)"
    proof -
      have "(2::rat) powi (ex + 1) = 2 powi (53 + (ex - 52))" by (simp add: algebra_simps)
      also have "\<dots> = 2 powi 53 * 2 powi (ex - 52)" by (subst power_int_add) simp_all
      finally show ?thesis by simp
    qed
    also have "\<dots> \<le> 2 powi ey" by (rule pow2_mono) (use lt in simp)
    finally have A: "round_float x \<le> 2 powi ey" .
    have "2 powi ey \<le> y" using float_exponent_bounds [OF y] by (simp add: ey)
    then have "2 powi ey / 2 powi (ey - 52) \<le> y / 2 powi (ey - 52)"
      using pow2_pos [of "ey - 52"] by (simp add: divide_right_mono)
    moreover have "(2::rat) powi ey / 2 powi (ey - 52) = of_int (2 ^ 52)"
      by (simp add: power_int_diff [symmetric])
    ultimately have "round_half_even (of_int (2 ^ 52)) \<le> round_half_even (y / 2 powi (ey - 52))"
      by (intro round_half_even_mono) simp
    then have "2 ^ 52 \<le> round_half_even (y / 2 powi (ey - 52))"
      by (simp only: round_half_even_of_int)
    then have "(of_int (2 ^ 52) :: rat) \<le> of_int (round_half_even (y / 2 powi (ey - 52)))"
      by (simp only: of_int_le_iff)
    then have "of_int (2 ^ 52) * 2 powi (ey - 52) \<le> round_float y"
      unfolding ry using pow2_pos [of "ey - 52"] by (simp add: mult_right_mono)
    moreover have "of_int (2 ^ 52) * 2 powi (ey - 52) = (2::rat) powi ey"
    proof -
      have "(2::rat) powi ey = 2 powi (52 + (ey - 52))" by simp
      also have "\<dots> = 2 powi 52 * 2 powi (ey - 52)" by (subst power_int_add) simp_all
      finally show ?thesis by simp
    qed
    ultimately show ?thesis using A by linarith
  qed
qed

lemma round_float_of_nat:
  assumes "n < 2 ^ 53"
  shows "round_float (of_nat n) = of_nat n"
proof (cases "n = 0")
  case True
  then show ?thesis by (simp add: round_float_def)
next
  case False
  define x :: rat where "x = of_nat n"
  have x: "0 < x" using False by (simp add: x_def)
  define e where "e = float_exponent x"
  note b = float_exponent_bounds [OF x, folded e_def]
  have e0: "0 \<le> e"
  proof (rule ccontr)
    assume "\<not> 0 \<le> e"
    then have "e + 1 \<le> 0" by simp
    then have "(2::rat) powi (e + 1) \<le> 2 powi 0" by (rule pow2_mono)
    with b have "x < 1" by simp
    then show False using False by (simp add: x_def)
  qed
  have e52: "e \<le> 52"
  proof (rule ccontr)
    assume "\<not> e \<le> 52"
    then have "53 \<le> e" by simp
    then have "(2::rat) powi 53 \<le> 2 powi e" by (rule pow2_mono)
    with b have "(2::rat) ^ 53 \<le> of_nat n" by (simp add: x_def)
    then have "(of_nat (2 ^ 53) :: rat) \<le> of_nat n" by simp
    then have "2 ^ 53 \<le> n" by (simp only: of_nat_le_iff)
    with assms show False by simp
  qed
  have u: "(2::rat) powi (e - 52) = 1 / of_int (2 ^ nat (52 - e))"
    using e52 by (simp add: power_int_def power_one_over)
  have "x / 2 powi (e - 52) = of_int (int n * 2 ^ nat (52 - e))"
    by (simp add: u x_def)
  then have "round_half_even (x / 2 powi (e - 52)) = int n * 2 ^ nat (52 - e)"
    by (simp only: round_half_even_of_int)
  then have "round_float x = of_int (int n * 2 ^ nat (52 - e)) * 2 powi (e - 52)"
    using x e0 by (simp add: round_float_def Let_def e_def [symmetric] max_def)
  also have "\<dots> = x" by (simp add: u x_def)
  finally show ?thesis by (simp add: x_def)
qed

lemma round_half_even_error: "\<bar>of_int (round_half_even x) - x\<bar> \<le> 1 / 2"
proof -
  define r where "r = x - of_int \<lfloor>x\<rfloor>"
  have r: "0 \<le> r" "r < 1" unfolding r_def by linarith+
  have x: "x = of_int \<lfloor>x\<rfloor> + r" by (simp add: r_def)
  have rhe: "round_half_even x =
      (if r < 1 / 2 then \<lfloor>x\<rfloor> else if 1 / 2 < r then \<lfloor>x\<rfloor> + 1
       else if even \<lfloor>x\<rfloor> then \<lfloor>x\<rfloor> else \<lfloor>x\<rfloor> + 1)"
    unfolding round_half_even_def Let_def r_def ..
  consider (lo) "r < 1 / 2" | (hi) "1 / 2 < r" | (mid) "r = 1 / 2" by linarith
  then show ?thesis
  proof cases
    case lo
    then have "of_int (round_half_even x) - x = - r" using x by (simp add: rhe)
    with lo r show ?thesis by simp
  next
    case hi
    then have "of_int (round_half_even x) - x = 1 - r" using x by (simp add: rhe)
    with hi r show ?thesis by simp
  next
    case mid
    then have "of_int (round_half_even x) - x = - r \<or> of_int (round_half_even x) - x = 1 - r"
      using x by (simp add: rhe)
    with mid show ?thesis by auto
  qed
qed

lemma round_float_error:
  assumes "0 \<le> x" "x \<le> 1"
  shows "\<bar>round_float x - x\<bar> \<le> 1 / 2 ^ 53"
proof (cases "x = 0")
  case True
  then show ?thesis by (simp add: round_float_def)
next
  case False
  with assms have x: "0 < x" by simp
  define e where "e = max (float_exponent x) (- 1022)"
  define u :: rat where "u = 2 powi (e - 52)"
  have u0: "0 < u" unfolding u_def by (rule pow2_pos)
  have "\<not> 1 \<le> float_exponent x"
  proof
    assume "1 \<le> float_exponent x"
    then have "(2::rat) powi 1 \<le> 2 powi (float_exponent x)" by (rule pow2_mono)
    with float_exponent_bounds [OF x] assms(2) show False by simp
  qed
  then have "e \<le> 0" by (simp add: e_def)
  then have "u \<le> 2 powi (- 52)" unfolding u_def by (intro pow2_mono) simp
  moreover have "(2::rat) powi (- 52) = 1 / 2 ^ 52"
    by (simp only: power_int_minus_divide power_int_numeral)
  ultimately have u: "u \<le> 1 / 2 ^ 52" by (simp only:)
  have r: "round_float x = of_int (round_half_even (x / u)) * u"
    using x by (simp add: round_float_def Let_def u_def e_def)
  have "round_float x - x = (of_int (round_half_even (x / u)) - x / u) * u"
    using u0 by (simp add: r algebra_simps)
  then have "\<bar>round_float x - x\<bar> = \<bar>of_int (round_half_even (x / u)) - x / u\<bar> * u"
    using u0 by (simp add: abs_mult)
  also have "\<dots> \<le> 1 / 2 * u"
    using round_half_even_error [of "x / u"] u0 by (intro mult_right_mono) simp_all
  also have "\<dots> \<le> 1 / 2 * (1 / 2 ^ 52)"
    using u by (intro mult_left_mono) simp_all
  finally show ?thesis by simp
qed

subsection \<open>The vertical index\<close>

lemma add_tid_keys': "set (map fst (add_tid i t d)) = insert i (set (map fst d))"
proof (induction d)
  case Nil
  then show ?case by simp
next
  case (Cons kv d)
  obtain k T where kv: "kv = (k, T)" by (cases kv)
  show ?case
  proof (cases "k = i")
    case True
    then show ?thesis by (simp add: kv insert_absorb)
  next
    case False
    then show ?thesis using Cons.IH by (simp add: kv insert_commute)
  qed
qed

lemma add_tid_keys: "fst ` set (add_tid i t d) = insert i (fst ` set d)"
  using add_tid_keys' [of i t d] by simp

lemma add_tid_distinct: "distinct (map fst d) \<Longrightarrow> distinct (map fst (add_tid i t d))"
proof (induction d)
  case Nil
  then show ?case by simp
next
  case (Cons kv d)
  obtain k T where kv: "kv = (k, T)" by (cases kv)
  from Cons show ?case
    using add_tid_keys [of i t d] by (auto simp: kv)
qed

lemma add_tid_map_of:
  "map_of (add_tid i t d) = (map_of d)(i \<mapsto> insert t (tidmap d i))"
  by (induction d) (auto simp: tidmap_def fun_eq_iff)

lemma add_tid_tidmap: "tidmap (add_tid i t d) = (tidmap d)(i := insert t (tidmap d i))"
  by (auto simp: tidmap_def add_tid_map_of fun_eq_iff)

lemma add_transaction_keys:
  "fst ` set (fold (\<lambda>i d. add_tid i t d) xs d) = set xs \<union> fst ` set d"
  by (induction xs arbitrary: d) (auto simp: add_tid_keys)

lemma add_transaction_distinct:
  "distinct (map fst d) \<Longrightarrow> distinct (map fst (fold (\<lambda>i d. add_tid i t d) xs d))"
  by (induction xs arbitrary: d) (auto simp: add_tid_distinct)

lemma add_transaction_tidmap:
  "tidmap (fold (\<lambda>i d. add_tid i t d) xs d) j =
     (if j \<in> set xs then insert t (tidmap d j) else tidmap d j)"
  by (induction xs arbitrary: d) (auto simp: add_tid_tidmap)

lemma index_keys:
  "fst ` set (fold (\<lambda>(tid, transaction) d. fold (\<lambda>i d. add_tid i tid d) transaction d)
      (enumerate n txs) d) = \<Union> (set ` set txs) \<union> fst ` set d"
  by (induction txs arbitrary: n d) (auto simp: add_transaction_keys)

lemma index_distinct:
  "distinct (map fst d) \<Longrightarrow>
   distinct (map fst (fold (\<lambda>(tid, transaction) d. fold (\<lambda>i d. add_tid i tid d) transaction d)
      (enumerate n txs) d))"
  by (induction txs arbitrary: n d) (auto simp: add_transaction_distinct)

lemma index_tidmap:
  "tidmap (fold (\<lambda>(tid, transaction) d. fold (\<lambda>i d. add_tid i tid d) transaction d)
      (enumerate n txs) d) j =
   tidmap d j \<union> {n + k | k. k < length txs \<and> j \<in> set (txs ! k)}"
proof (induction txs arbitrary: n d)
  case Nil
  then show ?case by simp
next
  case (Cons x txs)
  have "{n + k | k. k < length (x # txs) \<and> j \<in> set ((x # txs) ! k)} =
        (if j \<in> set x then {n} else {}) \<union> {Suc n + k | k. k < length txs \<and> j \<in> set (txs ! k)}"
    (is "?L = ?R")
  proof (intro set_eqI iffI)
    fix t assume "t \<in> ?L"
    then obtain k where k: "t = n + k" "k < length (x # txs)" "j \<in> set ((x # txs) ! k)" by blast
    then show "t \<in> ?R" by (cases k) auto
  next
    fix t assume "t \<in> ?R"
    then consider "j \<in> set x" "t = n" | k where "t = Suc n + k" "k < length txs" "j \<in> set (txs ! k)"
      by (auto split: if_splits)
    then show "t \<in> ?L"
    proof cases
      case 1
      then have "t = n + 0 \<and> 0 < length (x # txs) \<and> j \<in> set ((x # txs) ! 0)" by simp
      then show ?thesis by blast
    next
      case 2
      then have "t = n + Suc k \<and> Suc k < length (x # txs) \<and> j \<in> set ((x # txs) ! Suc k)" by simp
      then show ?thesis by blast
    qed
  qed
  then show ?case
    by (simp add: Cons.IH add_transaction_tidmap)
qed

lemma build_tid_lists_fields [simp]:
  "min_support (build_tid_lists s txs) = min_support s"
  "min_confidence (build_tid_lists s txs) = min_confidence s"
  "frequent_itemsets (build_tid_lists s txs) = frequent_itemsets s"
  "rules (build_tid_lists s txs) = rules s"
  "num_transactions (build_tid_lists s txs) = num_transactions s"
  by (simp_all add: build_tid_lists_def)

lemma build_tid_lists_distinct: "distinct (map fst (tid_lists (build_tid_lists s txs)))"
  by (simp add: build_tid_lists_def index_distinct)

lemma build_tid_lists_keys: "fst ` set (tid_lists (build_tid_lists s txs)) = observed txs"
  by (simp add: build_tid_lists_def index_keys observed_def)

lemma cover_single: "cover txs {i} = {k. k < length txs \<and> i \<in> set (txs ! k)}"
  by (auto simp: cover_def)

lemma build_tid_lists_map_of:
  "map_of (tid_lists (build_tid_lists s txs)) i =
     (if i \<in> observed txs then Some (cover txs {i}) else None)"
proof (cases "i \<in> observed txs")
  case True
  then have "i \<in> fst ` set (tid_lists (build_tid_lists s txs))"
    by (simp add: build_tid_lists_keys)
  then obtain T where T: "map_of (tid_lists (build_tid_lists s txs)) i = Some T"
    by (metis domD dom_map_of_conv_image_fst)
  then have "tidmap (tid_lists (build_tid_lists s txs)) i = T" by (simp add: tidmap_def)
  moreover have "tidmap (tid_lists (build_tid_lists s txs)) i = cover txs {i}"
    unfolding build_tid_lists_def by (simp add: index_tidmap cover_single) (simp add: tidmap_def)
  ultimately have "T = cover txs {i}" by simp
  with T True show ?thesis by simp
next
  case False
  then have "i \<notin> fst ` set (tid_lists (build_tid_lists s txs))"
    by (simp add: build_tid_lists_keys)
  then have "map_of (tid_lists (build_tid_lists s txs)) i = None"
    by (simp add: map_of_eq_None_iff)
  with False show ?thesis by simp
qed

subsection \<open>Tid-lists of itemsets\<close>

lemma cover_finite [simp]: "finite (cover txs S)"
  by (simp add: cover_def)

lemma cover_insert: "cover txs (insert i S) = cover txs S \<inter> cover txs {i}"
  by (auto simp: cover_def)

lemma cover_snoc: "cover txs (set (pfx @ [i])) = cover txs (set pfx) \<inter> cover txs {i}"
  by (auto simp: cover_def)

lemma cover_Inter: "S \<noteq> {} \<Longrightarrow> cover txs S = (\<Inter>i\<in>S. cover txs {i})"
  unfolding cover_def by blast

lemma cover_antimono: "A \<subseteq> B \<Longrightarrow> cover txs B \<subseteq> cover txs A"
  by (auto simp: cover_def)

lemma card_cover_antimono: "A \<subseteq> B \<Longrightarrow> card (cover txs B) \<le> card (cover txs A)"
  by (intro card_mono cover_antimono) simp_all

lemma cover_bound: "card (cover txs S) \<le> length txs"
proof -
  have "cover txs S \<subseteq> {..<length txs}" by (auto simp: cover_def)
  then have "card (cover txs S) \<le> card {..<length txs}" by (intro card_mono) simp_all
  then show ?thesis by simp
qed

lemma cover_nonempty_observed:
  assumes "cover txs S \<noteq> {}"
  shows "S \<subseteq> observed txs"
proof -
  from assms obtain t where "t < length txs" "S \<subseteq> set (txs ! t)" by (auto simp: cover_def)
  then show ?thesis unfolding observed_def using nth_mem by blast
qed

subsection \<open>What a call of \<open>eclat_recursive\<close> appends\<close>

lemma emit_fields [simp]:
  "min_support (emit s fs) = min_support s"
  "min_confidence (emit s fs) = min_confidence s"
  "frequent_itemsets (emit s fs) = frequent_itemsets s @ [fs]"
  "rules (emit s fs) = rules s"
  "tid_lists (emit s fs) = tid_lists s"
  "num_transactions (emit s fs) = num_transactions s"
  by (simp_all add: emit_def)

lemma int_truediv_pos:
  "0 < n \<Longrightarrow> int_truediv a (int n) = Inr (round_float (of_int a / of_int (int n)))"
  by (simp add: int_truediv_def)

lemma append_itemsets:
  "s\<lparr>frequent_itemsets := frequent_itemsets s @ xs\<rparr>\<lparr>frequent_itemsets := (frequent_itemsets s @ xs) @ ys\<rparr>
     = s\<lparr>frequent_itemsets := frequent_itemsets s @ xs @ ys\<rparr>"
  by simp

lemma eclat_recursive_extensions:
  assumes "0 < num_transactions s" "\<forall>i\<in>set rem. map_of fi i = Some (\<tau> i)"
  shows "eclat_recursive s pfx T rem fi m =
           Inr (s\<lparr>frequent_itemsets :=
                  frequent_itemsets s @ extensions (num_transactions s) \<tau> m pfx T rem\<rparr>)"
  using assms
proof (induction rem arbitrary: s pfx T)
  case Nil
  then show ?case by simp
next
  case (Cons i rem)
  have fi: "map_of fi i = Some (\<tau> i)" and rest: "\<forall>i\<in>set rem. map_of fi i = Some (\<tau> i)"
    using Cons.prems(2) by simp_all
  note n = Cons.prems(1)
  define T' where "T' = T \<inter> \<tau> i"
  define fs where "fs = \<lparr>itemset = pfx @ [i],
      support = round_float (of_int (int (card T')) / of_int (int (num_transactions s))),
      tid_list = T'\<rparr>"
  show ?case
  proof (cases "m \<le> int (card T')")
    case False
    then show ?thesis
      using Cons.IH [OF n rest, of pfx T] by (simp add: fi T'_def)
  next
    case True
    have n1: "0 < num_transactions (emit s fs)" using n by simp
    define inner where "inner = (if length (pfx @ [i]) < 5
        then extensions (num_transactions s) \<tau> m (pfx @ [i]) T' rem else [])"
    have step1: "(if length (pfx @ [i]) < 5
             then eclat_recursive (emit s fs) (pfx @ [i]) T' rem fi m
             else Inr (emit s fs)) =
          Inr (s\<lparr>frequent_itemsets := frequent_itemsets s @ fs # inner\<rparr>)"
      using Cons.IH [OF n1 rest, of "pfx @ [i]" T'] by (simp add: inner_def emit_def)
    define s2 where "s2 = s\<lparr>frequent_itemsets := frequent_itemsets s @ fs # inner\<rparr>"
    have n2: "0 < num_transactions s2" using n by (simp add: s2_def)
    have step2: "eclat_recursive s2 pfx T rem fi m =
          Inr (s\<lparr>frequent_itemsets := frequent_itemsets s @ fs # inner
                   @ extensions (num_transactions s) \<tau> m pfx T rem\<rparr>)"
      using Cons.IH [OF n2 rest, of pfx T] by (simp add: s2_def)
    have "eclat_recursive s pfx T (i # rem) fi m = eclat_recursive s2 pfx T rem fi m"
      using True n step1
      by (cases "length (pfx @ [i]) < 5")
         (simp_all add: fi T'_def [symmetric] int_truediv_pos fs_def s2_def Let_def)
    also note step2
    finally show ?thesis
      using True by (simp add: T'_def [symmetric] fs_def inner_def Let_def)
  qed
qed

subsection \<open>Subsequences and sorted lists\<close>

lemma strictly_sorted_set_inj:
  fixes xs ys :: "'a::linorder list"
  assumes "sorted_wrt (<) xs" "sorted_wrt (<) ys" "set xs = set ys"
  shows "xs = ys"
  using assms by (intro sorted_distinct_set_unique) (simp_all add: strict_sorted_iff)

lemma subseq_set: "subseq xs ys \<Longrightarrow> set xs \<subseteq> set ys"
  by (induction rule: list_emb.induct) auto

lemma subseq_sorted_wrt: "subseq xs ys \<Longrightarrow> sorted_wrt P ys \<Longrightarrow> sorted_wrt P xs"
proof (induction rule: list_emb.induct)
  case (list_emb_Nil ys)
  then show ?case by simp
next
  case (list_emb_Cons xs ys y)
  then show ?case by simp
next
  case (list_emb_Cons2 x y xs ys)
  then show ?case using subseq_set [of xs ys] by auto
qed

subsection \<open>The itemsets in \<open>extensions\<close>\<close>

lemma extensions_shape:
  assumes "fs \<in> set (extensions n \<tau> m pfx T rem)"
  shows "\<exists>ys. ys \<noteq> [] \<and> subseq ys rem \<and> itemset fs = pfx @ ys"
  using assms
proof (induction rem arbitrary: pfx T)
  case Nil
  then show ?case by simp
next
  case (Cons i rem)
  from Cons.prems consider
      (head) "itemset fs = pfx @ [i]"
    | (inner) "fs \<in> set (extensions n \<tau> m (pfx @ [i]) (T \<inter> \<tau> i) rem)"
    | (outer) "fs \<in> set (extensions n \<tau> m pfx T rem)"
    by (auto simp: Let_def split: if_splits)
  then show ?case
  proof cases
    case head
    then have "[i] \<noteq> [] \<and> subseq [i] (i # rem) \<and> itemset fs = pfx @ [i]" by simp
    then show ?thesis by blast
  next
    case inner
    from Cons.IH [OF inner] obtain ys where
      "ys \<noteq> []" "subseq ys rem" "itemset fs = (pfx @ [i]) @ ys" by blast
    then have "i # ys \<noteq> [] \<and> subseq (i # ys) (i # rem) \<and> itemset fs = pfx @ i # ys" by simp
    then show ?thesis by blast
  next
    case outer
    from Cons.IH [OF outer] obtain ys where
      "ys \<noteq> []" "subseq ys rem" "itemset fs = pfx @ ys" by blast
    then have "ys \<noteq> [] \<and> subseq ys (i # rem) \<and> itemset fs = pfx @ ys"
      by (simp add: list_emb_Cons)
    then show ?thesis by blast
  qed
qed

lemma extensions_sound:
  assumes "fs \<in> set (extensions n (\<lambda>i. cover txs {i}) m pfx (cover txs (set pfx)) rem)"
  shows "tid_list fs = cover txs (set (itemset fs)) \<and>
         support fs = round_float (of_nat (card (tid_list fs)) / of_nat n) \<and>
         m \<le> int (card (tid_list fs)) \<and>
         length (itemset fs) \<le> max 5 (Suc (length pfx))"
  using assms
proof (induction rem arbitrary: pfx)
  case Nil
  then show ?case by simp
next
  case (Cons i rem)
  define T' where "T' = cover txs (set (pfx @ [i]))"
  have T': "cover txs (set pfx) \<inter> cover txs {i} = T'"
    by (simp only: T'_def cover_snoc)
  from Cons.prems consider
      (head) "m \<le> int (card T')"
        "fs = \<lparr>itemset = pfx @ [i],
               support = round_float (of_int (int (card T')) / of_int (int n)), tid_list = T'\<rparr>"
    | (inner) "length (pfx @ [i]) < 5"
        "fs \<in> set (extensions n (\<lambda>i. cover txs {i}) m (pfx @ [i]) T' rem)"
    | (outer) "fs \<in> set (extensions n (\<lambda>i. cover txs {i}) m pfx (cover txs (set pfx)) rem)"
    unfolding extensions.simps T' Let_def by (auto split: if_splits)
  then show ?case
  proof cases
    case head
    then show ?thesis by (simp add: T'_def)
  next
    case inner
    from Cons.IH [of "pfx @ [i]", OF inner(2) [unfolded T'_def]] have
      "tid_list fs = cover txs (set (itemset fs)) \<and>
       support fs = round_float (of_nat (card (tid_list fs)) / of_nat n) \<and>
       m \<le> int (card (tid_list fs)) \<and>
       length (itemset fs) \<le> max 5 (Suc (length (pfx @ [i])))" .
    with inner(1) show ?thesis by (auto simp: max_def split: if_splits)
  next
    case outer
    from Cons.IH [OF outer] show ?thesis .
  qed
qed

lemma extensions_complete:
  assumes "ys \<noteq> []" "subseq ys rem" "length (pfx @ ys) \<le> 5"
    and "m \<le> int (card (cover txs (set (pfx @ ys))))"
  shows "\<exists>fs\<in>set (extensions n (\<lambda>i. cover txs {i}) m pfx (cover txs (set pfx)) rem).
           itemset fs = pfx @ ys"
  using assms
proof (induction rem arbitrary: pfx ys)
  case Nil
  then show ?case by simp
next
  case (Cons i rem)
  obtain y ys' where ys: "ys = y # ys'" using Cons.prems(1) by (cases ys) auto
  define T' where "T' = cover txs (set (pfx @ [i]))"
  have T': "cover txs (set pfx) \<inter> cover txs {i} = T'"
    by (simp only: T'_def cover_snoc)
  show ?case
  proof (cases "y = i")
    case False
    with Cons.prems(2) have "subseq ys rem" by (simp add: ys)
    from Cons.IH [OF Cons.prems(1) this Cons.prems(3,4)]
    show ?thesis
      unfolding extensions.simps T' Let_def by auto
  next
    case True
    with Cons.prems(2) have sub: "subseq ys' rem" by (simp add: ys)
    have "card (cover txs (set (pfx @ ys))) \<le> card T'"
      unfolding T'_def by (rule card_cover_antimono) (auto simp: ys True)
    with Cons.prems(4) have freq: "m \<le> int (card T')" by linarith
    show ?thesis
    proof (cases "ys' = []")
      case True
      with freq \<open>y = i\<close> show ?thesis
        unfolding extensions.simps T' Let_def by (simp add: ys)
    next
      case False
      have len: "length (pfx @ [i]) < 5" using Cons.prems(3) False by (cases ys') (auto simp: ys)
      have "\<exists>fs\<in>set (extensions n (\<lambda>i. cover txs {i}) m (pfx @ [i])
                       (cover txs (set (pfx @ [i]))) rem). itemset fs = (pfx @ [i]) @ ys'"
        using Cons.prems(3,4) by (intro Cons.IH [OF False sub]) (simp_all add: ys True)
      with freq len \<open>y = i\<close> show ?thesis
        unfolding extensions.simps T' Let_def by (auto simp: ys T'_def)
    qed
  qed
qed

lemma extensions_distinct:
  assumes "distinct rem"
  shows "distinct (map itemset (extensions n \<tau> m pfx T rem))"
  using assms
proof (induction rem arbitrary: pfx T)
  case Nil
  then show ?case by simp
next
  case (Cons i rem)
  define inner where "inner = (if length (pfx @ [i]) < 5
      then extensions n \<tau> m (pfx @ [i]) (T \<inter> \<tau> i) rem else [])"
  define outer where "outer = extensions n \<tau> m pfx T rem"
  have i: "i \<notin> set rem" and d: "distinct rem" using Cons.prems by simp_all
  have d_in: "distinct (map itemset inner)"
    unfolding inner_def using Cons.IH [OF d] by simp
  have d_out: "distinct (map itemset outer)"
    unfolding outer_def by (rule Cons.IH [OF d])
  have in_shape: "\<exists>ys. ys \<noteq> [] \<and> itemset fs = pfx @ i # ys" if "fs \<in> set inner" for fs
    using that extensions_shape [of fs n \<tau> m "pfx @ [i]" "T \<inter> \<tau> i" rem]
    unfolding inner_def by (auto split: if_splits)
  have out_shape: "\<exists>y ys. y \<noteq> i \<and> itemset fs = pfx @ y # ys" if "fs \<in> set outer" for fs
  proof -
    from that obtain ys where ys: "ys \<noteq> []" "subseq ys rem" "itemset fs = pfx @ ys"
      unfolding outer_def using extensions_shape by blast
    then obtain y ys' where "ys = y # ys'" by (cases ys) auto
    moreover from this ys(2) have "y \<in> set rem"
      using subseq_set [of ys rem] by auto
    ultimately show ?thesis using i ys(3) by auto
  qed
  have "distinct (map itemset (\<lparr>itemset = pfx @ [i], support = v, tid_list = T \<inter> \<tau> i\<rparr> # inner @ outer))"
    for v
    using d_in d_out in_shape out_shape by (fastforce simp: image_iff)
  then show ?case
    unfolding extensions.simps Let_def inner_def [symmetric] outer_def [symmetric]
    using d_out by (simp del: distinct.simps map_append list.map)
qed

subsection \<open>The itemsets in \<open>explorations\<close>\<close>

lemma explorations_shape:
  assumes "fs \<in> set (explorations n \<tau> m items)"
  shows "\<exists>ys. 2 \<le> length ys \<and> subseq ys items \<and> itemset fs = ys"
  using assms
proof (induction items)
  case Nil
  then show ?case by simp
next
  case (Cons i items)
  from Cons.prems consider
      (first) "fs \<in> set (extensions n \<tau> m [i] (\<tau> i) items)"
    | (rest) "fs \<in> set (explorations n \<tau> m items)"
    by auto
  then show ?case
  proof cases
    case first
    from extensions_shape [OF first] obtain ys where
      "ys \<noteq> []" "subseq ys items" "itemset fs = [i] @ ys" by blast
    then have "2 \<le> length (i # ys) \<and> subseq (i # ys) (i # items) \<and> itemset fs = i # ys"
      by (cases ys) simp_all
    then show ?thesis by blast
  next
    case rest
    from Cons.IH [OF rest] obtain ys where
      "2 \<le> length ys" "subseq ys items" "itemset fs = ys" by blast
    then have "2 \<le> length ys \<and> subseq ys (i # items) \<and> itemset fs = ys"
      by (simp add: list_emb_Cons)
    then show ?thesis by blast
  qed
qed

lemma explorations_sound:
  assumes "fs \<in> set (explorations n (\<lambda>i. cover txs {i}) m items)"
  shows "tid_list fs = cover txs (set (itemset fs)) \<and>
         support fs = round_float (of_nat (card (tid_list fs)) / of_nat n) \<and>
         m \<le> int (card (tid_list fs)) \<and>
         length (itemset fs) \<le> 5"
  using assms
proof (induction items)
  case Nil
  then show ?case by simp
next
  case (Cons i items)
  from Cons.prems consider
      (first) "fs \<in> set (extensions n (\<lambda>i. cover txs {i}) m [i] (cover txs (set [i])) items)"
    | (rest) "fs \<in> set (explorations n (\<lambda>i. cover txs {i}) m items)"
    by auto
  then show ?case
  proof cases
    case first
    from extensions_sound [OF first] show ?thesis by auto
  next
    case rest
    from Cons.IH [OF rest] show ?thesis .
  qed
qed

lemma explorations_complete:
  assumes "subseq ys items" "2 \<le> length ys" "length ys \<le> 5"
    and "m \<le> int (card (cover txs (set ys)))"
  shows "\<exists>fs\<in>set (explorations n (\<lambda>i. cover txs {i}) m items). itemset fs = ys"
  using assms
proof (induction items arbitrary: ys rule: list.induct)
  case Nil
  then show ?case by (cases ys) simp_all
next
  case (Cons i items)
  obtain y ys' where ys: "ys = y # ys'" "ys' \<noteq> []"
    using Cons.prems(2) by (cases ys; cases "tl ys") auto
  show ?case
  proof (cases "y = i")
    case True
    with Cons.prems(1) have sub: "subseq ys' items" by (simp add: ys)
    have "\<exists>fs\<in>set (extensions n (\<lambda>i. cover txs {i}) m [i] (cover txs (set [i])) items).
            itemset fs = [i] @ ys'"
      using Cons.prems(3,4) by (intro extensions_complete [OF ys(2) sub]) (simp_all add: ys True)
    then show ?thesis by (auto simp: ys True)
  next
    case False
    with Cons.prems(1) have "subseq ys items" by (simp add: ys)
    from Cons.IH [OF this Cons.prems(2,3,4)] show ?thesis by auto
  qed
qed

lemma explorations_distinct:
  assumes "distinct items"
  shows "distinct (map itemset (explorations n \<tau> m items))"
  using assms
proof (induction items)
  case Nil
  then show ?case by simp
next
  case (Cons i items)
  have i: "i \<notin> set items" and d: "distinct items" using Cons.prems by simp_all
  have first: "hd (itemset fs) = i" if "fs \<in> set (extensions n \<tau> m [i] (\<tau> i) items)" for fs
    using extensions_shape [OF that] by auto
  have rest: "hd (itemset fs) \<noteq> i" if "fs \<in> set (explorations n \<tau> m items)" for fs
  proof -
    from explorations_shape [OF that] obtain ys where
      ys: "2 \<le> length ys" "subseq ys items" "itemset fs = ys" by blast
    then have "hd ys \<in> set items" using subseq_set [of ys items] by (cases ys) auto
    with i ys(3) show ?thesis by auto
  qed
  show ?case
    using extensions_distinct [OF d, of n \<tau> m "[i]" "\<tau> i"] Cons.IH [OF d] first rest
    by (fastforce simp: image_iff)
qed

subsection \<open>What \<open>mine\<close> computes\<close>

lemma add_singletons_singletons:
  assumes "0 < num_transactions s \<or> kvs = []"
  shows "add_singletons s kvs =
           Inr (s\<lparr>frequent_itemsets :=
                  frequent_itemsets s @ singletons (num_transactions s) kvs\<rparr>)"
  using assms
proof (induction kvs arbitrary: s)
  case Nil
  then show ?case by (simp add: singletons_def)
next
  case (Cons kv kvs)
  obtain i T where kv: "kv = (i, T)" by (cases kv)
  from Cons.prems have n: "0 < num_transactions s" by simp
  define fs where "fs = \<lparr>itemset = [i],
      support = round_float (of_int (int (card T)) / of_int (int (num_transactions s))),
      tid_list = T\<rparr>"
  have "add_singletons s (kv # kvs) = add_singletons (emit s fs) kvs"
    using n by (simp add: kv int_truediv_pos fs_def)
  also have "\<dots> = Inr (emit s fs\<lparr>frequent_itemsets :=
      frequent_itemsets (emit s fs) @ singletons (num_transactions (emit s fs)) kvs\<rparr>)"
    using n by (intro Cons.IH) simp
  finally show ?case
    by (simp add: singletons_def kv fs_def emit_def)
qed

lemma explore_explorations:
  assumes "0 < num_transactions s \<or> items = []" "\<forall>i\<in>set items. map_of fi i = Some (\<tau> i)"
  shows "explore s items fi m =
           Inr (s\<lparr>frequent_itemsets :=
                  frequent_itemsets s @ explorations (num_transactions s) \<tau> m items\<rparr>)"
  using assms
proof (induction items arbitrary: s)
  case Nil
  then show ?case by simp
next
  case (Cons i items)
  from Cons.prems have n: "0 < num_transactions s" by simp
  have fi: "map_of fi i = Some (\<tau> i)" and rest: "\<forall>i\<in>set items. map_of fi i = Some (\<tau> i)"
    using Cons.prems(2) by simp_all
  define s1 where "s1 = s\<lparr>frequent_itemsets :=
      frequent_itemsets s @ extensions (num_transactions s) \<tau> m [i] (\<tau> i) items\<rparr>"
  have "eclat_recursive s [i] (\<tau> i) items fi m = Inr s1"
    unfolding s1_def by (rule eclat_recursive_extensions [OF n rest])
  then have "explore s (i # items) fi m = explore s1 items fi m"
    by (simp add: fi)
  also have "\<dots> = Inr (s1\<lparr>frequent_itemsets :=
      frequent_itemsets s1 @ explorations (num_transactions s1) \<tau> m items\<rparr>)"
    using n rest by (intro Cons.IH) (simp_all add: s1_def)
  finally show ?case by (simp add: s1_def)
qed

lemma indexed_fields [simp]:
  "min_support (indexed s txs) = min_support s"
  "min_confidence (indexed s txs) = min_confidence s"
  "frequent_itemsets (indexed s txs) = frequent_itemsets s"
  "rules (indexed s txs) = rules s"
  "num_transactions (indexed s txs) = length txs"
  by (simp_all add: indexed_def)

lemma min_sup_count_of_indexed: "min_sup_count_of (indexed s txs) = threshold s txs"
  by (simp add: min_sup_count_of_def threshold_def)

lemma indexed_map_of:
  "map_of (tid_lists (indexed s txs)) i =
     (if i \<in> observed txs then Some (cover txs {i}) else None)"
  unfolding indexed_def by (rule build_tid_lists_map_of)

lemma indexed_distinct: "distinct (map fst (tid_lists (indexed s txs)))"
  unfolding indexed_def by (rule build_tid_lists_distinct)

lemma frequent_items_distinct: "distinct (map fst (frequent_items_of (indexed s txs)))"
  unfolding frequent_items_of_def by (intro distinct_map_filter indexed_distinct)

lemma frequent_items_iff:
  "(i, T) \<in> set (frequent_items_of (indexed s txs)) \<longleftrightarrow>
     i \<in> observed txs \<and> T = cover txs {i} \<and> threshold s txs \<le> int (card T)"
proof -
  have "(i, T) \<in> set (tid_lists (indexed s txs)) \<longleftrightarrow> i \<in> observed txs \<and> T = cover txs {i}"
    using map_of_eq_Some_iff [OF indexed_distinct, of s txs i T]
    by (auto simp: indexed_map_of split: if_splits)
  then show ?thesis
    by (auto simp: frequent_items_of_def min_sup_count_of_indexed)
qed

lemma frequent_items_map_of:
  assumes "i \<in> fst ` set (frequent_items_of (indexed s txs))"
  shows "map_of (frequent_items_of (indexed s txs)) i = Some (cover txs {i})"
proof -
  from assms obtain T where T: "(i, T) \<in> set (frequent_items_of (indexed s txs))" by auto
  then have "T = cover txs {i}" by (simp add: frequent_items_iff)
  with T show ?thesis
    using map_of_eq_Some_iff [OF frequent_items_distinct] by simp
qed

lemma frequent_items_keys:
  "fst ` set (frequent_items_of (indexed s txs)) =
     {i \<in> observed txs. threshold s txs \<le> int (card (cover txs {i}))}"
proof (intro set_eqI iffI)
  fix i assume "i \<in> fst ` set (frequent_items_of (indexed s txs))"
  then obtain T where "(i, T) \<in> set (frequent_items_of (indexed s txs))" by auto
  then show "i \<in> {i \<in> observed txs. threshold s txs \<le> int (card (cover txs {i}))}"
    by (auto simp: frequent_items_iff)
next
  fix i assume "i \<in> {i \<in> observed txs. threshold s txs \<le> int (card (cover txs {i}))}"
  then have "(i, cover txs {i}) \<in> set (frequent_items_of (indexed s txs))"
    by (simp add: frequent_items_iff)
  then show "i \<in> fst ` set (frequent_items_of (indexed s txs))"
    by (rule rev_image_eqI) simp
qed

lemma observed_empty_iff: "observed txs = {} \<Longrightarrow> frequent_items_of (indexed s txs) = []"
proof (cases "frequent_items_of (indexed s txs)")
  case Nil
  then show ?thesis by simp
next
  case (Cons kv kvs)
  obtain i T where "kv = (i, T)" by (cases kv)
  with Cons have "(i, T) \<in> set (frequent_items_of (indexed s txs))" by simp
  then have "i \<in> observed txs" by (simp add: frequent_items_iff)
  moreover assume "observed txs = {}"
  ultimately show ?thesis by simp
qed

lemma no_transactions: "length txs = 0 \<Longrightarrow> frequent_items_of (indexed s txs) = []"
  by (rule observed_empty_iff) (simp add: observed_def)

lemma mine_mined:
  "mine s txs = Inr (indexed s txs\<lparr>frequent_itemsets := frequent_itemsets s @ mined s txs\<rparr>)"
proof -
  define s1 where "s1 = indexed s txs"
  define fi where "fi = frequent_items_of s1"
  define items where "items = sort (map fst fi)"
  define m where "m = threshold s txs"
  have n: "num_transactions s1 = length txs" by (simp add: s1_def)
  have f: "frequent_itemsets s1 = frequent_itemsets s" by (simp add: s1_def)
  have e: "0 < length txs \<or> fi = []"
    using no_transactions [of txs s] by (auto simp: fi_def s1_def)
  define s2 where "s2 = s1\<lparr>frequent_itemsets := frequent_itemsets s1 @ singletons (length txs) fi\<rparr>"
  have a: "add_singletons s1 fi = Inr s2"
    unfolding s2_def using e add_singletons_singletons [of s1 fi] by (simp add: n)
  have look: "\<forall>i\<in>set items. map_of fi i = Some (cover txs {i})"
    unfolding items_def fi_def s1_def using frequent_items_map_of [of _ s txs] by simp
  have e2: "0 < num_transactions s2 \<or> items = []"
    using e by (auto simp: s2_def n items_def)
  have b: "explore s2 items fi m =
      Inr (s2\<lparr>frequent_itemsets := frequent_itemsets s2 @
          explorations (num_transactions s2) (\<lambda>i. cover txs {i}) m items\<rparr>)"
    by (rule explore_explorations [OF e2 look])
  have "mine s txs = explore s2 items fi m"
    unfolding mine_def indexed_def [symmetric] s1_def [symmetric] Let_def fi_def [symmetric]
      items_def [symmetric]
    by (simp add: a m_def min_sup_count_of_indexed [of s txs, folded s1_def])
  also note b
  finally show ?thesis
    by (simp add: s2_def n f mined_def Let_def s1_def [symmetric] fi_def [symmetric]
        items_def [symmetric] m_def)
qed

subsection \<open>The mined itemsets, characterised\<close>

lemma items_sorted:
  "sorted_wrt (<) (sort (map fst (frequent_items_of (indexed s txs))))"
  using frequent_items_distinct [of s txs] by (simp add: strict_sorted_iff)

lemma items_set:
  "set (sort (map fst (frequent_items_of (indexed s txs)))) =
     {i \<in> observed txs. threshold s txs \<le> int (card (cover txs {i}))}"
  using frequent_items_keys [of s txs] by simp

lemma singletons_iff:
  "fs \<in> set (singletons n kvs) \<longleftrightarrow>
     (\<exists>i T. (i, T) \<in> set kvs \<and> itemset fs = [i] \<and> tid_list fs = T \<and>
        support fs = round_float (of_nat (card T) / of_nat n))"
  by (cases fs) (auto simp: singletons_def image_iff split: prod.splits)

lemma well_mined_tid_list:
  assumes "well_mined s txs x"
  shows "tid_list x = (\<Inter>i\<in>set (itemset x). cover txs {i})"
proof -
  from assms have ne: "set (itemset x) \<noteq> {}" and tl: "tid_list x = cover txs (set (itemset x))"
    unfolding well_mined_def by simp_all
  show ?thesis unfolding tl by (rule cover_Inter [OF ne])
qed

lemma mined_sound:
  assumes "fs \<in> set (mined s txs)"
  shows "well_mined s txs fs"
proof -
  define fi where "fi = frequent_items_of (indexed s txs)"
  define items where "items = sort (map fst fi)"
  from assms consider
      (single) "fs \<in> set (singletons (length txs) fi)"
    | (more) "fs \<in> set (explorations (length txs) (\<lambda>i. cover txs {i}) (threshold s txs) items)"
    by (auto simp: mined_def Let_def fi_def items_def)
  then show ?thesis
  proof cases
    case single
    then obtain i T where iT: "(i, T) \<in> set fi" "itemset fs = [i]" "tid_list fs = T"
      "support fs = round_float (of_nat (card T) / of_nat (length txs))"
      by (auto simp: singletons_iff)
    from iT(1) have "i \<in> observed txs" "T = cover txs {i}" "threshold s txs \<le> int (card T)"
      by (auto simp: fi_def frequent_items_iff)
    with iT show ?thesis by (simp add: well_mined_def)
  next
    case more
    from explorations_shape [OF more] have sub: "subseq (itemset fs) items"
      and len: "2 \<le> length (itemset fs)" by auto
    have "sorted_wrt (<) items" unfolding items_def fi_def by (rule items_sorted)
    with sub have sorted: "sorted_wrt (<) (itemset fs)" by (rule subseq_sorted_wrt)
    have "set (itemset fs) \<subseteq> set items" using sub by (rule subseq_set)
    then have obs: "set (itemset fs) \<subseteq> observed txs"
      unfolding items_def fi_def items_set by auto
    from explorations_sound [OF more] len sorted obs show ?thesis
      by (auto simp: well_mined_def)
  qed
qed

lemma mined_complete:
  assumes "well_mined s txs fs"
  shows "fs \<in> set (mined s txs)"
proof -
  define fi where "fi = frequent_items_of (indexed s txs)"
  define items where "items = sort (map fst fi)"
  define ys where "ys = itemset fs"
  from assms have ys: "ys \<noteq> []" "sorted_wrt (<) ys" "length ys \<le> 5" "set ys \<subseteq> observed txs"
    "threshold s txs \<le> int (card (cover txs (set ys)))"
    and tl: "tid_list fs = cover txs (set ys)"
    and sp: "support fs = round_float (of_nat (card (tid_list fs)) / of_nat (length txs))"
    by (simp_all add: well_mined_def ys_def)
  have each: "threshold s txs \<le> int (card (cover txs {y}))" if "y \<in> set ys" for y
  proof -
    have "card (cover txs (set ys)) \<le> card (cover txs {y})"
      using that by (intro card_cover_antimono) simp
    with ys(5) show ?thesis by linarith
  qed
  show ?thesis
  proof (cases "length ys = 1")
    case True
    then obtain i where i: "ys = [i]" by (cases ys) auto
    have "(i, cover txs {i}) \<in> set fi"
      using ys(4) each [of i] by (simp add: fi_def frequent_items_iff i)
    then have "fs \<in> set (singletons (length txs) fi)"
      using tl sp by (auto simp: singletons_iff ys_def [symmetric] i)
    then show ?thesis by (simp add: mined_def Let_def fi_def)
  next
    case False
    moreover have "length ys \<noteq> 0" using ys(1) by simp
    ultimately have len: "2 \<le> length ys" by linarith
    have "set ys \<subseteq> set items"
      unfolding items_def fi_def items_set using ys(4) each by auto
    moreover have "sorted_wrt (\<le>) items"
      unfolding items_def by simp
    ultimately have sub: "subseq ys items"
      using ys(2) by (intro sorted_subset_imp_subseq)
    from explorations_complete [OF sub len ys(3) ys(5), of "length txs"]
    obtain fs' where fs': "fs' \<in> set (explorations (length txs) (\<lambda>i. cover txs {i})
        (threshold s txs) items)" "itemset fs' = ys" by blast
    from explorations_sound [OF fs'(1)] fs'(2) tl sp have "fs' = fs"
      by (intro frequent_itemset.equality) (simp_all add: ys_def)
    with fs'(1) show ?thesis by (simp add: mined_def Let_def fi_def items_def)
  qed
qed

lemma mined_iff: "fs \<in> set (mined s txs) \<longleftrightarrow> well_mined s txs fs"
  using mined_sound mined_complete by blast

lemma mined_distinct: "distinct (map itemset (mined s txs))"
proof -
  define fi where "fi = frequent_items_of (indexed s txs)"
  define items where "items = sort (map fst fi)"
  have "map itemset (singletons (length txs) fi) = map (\<lambda>i. [i]) (map fst fi)"
    by (simp add: singletons_def split_def)
  moreover have "distinct (map (\<lambda>i. [i]) (map fst fi))"
    unfolding fi_def using frequent_items_distinct [of s txs]
    by (subst distinct_map) (simp add: inj_on_def)
  ultimately have d1: "distinct (map itemset (singletons (length txs) fi))" by simp
  have "distinct items" unfolding items_def fi_def using frequent_items_distinct [of s txs] by simp
  then have d2: "distinct (map itemset (explorations (length txs) (\<lambda>i. cover txs {i})
      (threshold s txs) items))"
    by (rule explorations_distinct)
  have l1: "length (itemset fs) = 1" if "fs \<in> set (singletons (length txs) fi)" for fs
    using that by (auto simp: singletons_iff)
  have l2: "2 \<le> length (itemset fs)"
    if "fs \<in> set (explorations (length txs) (\<lambda>i. cover txs {i}) (threshold s txs) items)" for fs
    using explorations_shape [OF that] by auto
  have "set (map itemset (singletons (length txs) fi)) \<inter>
        set (map itemset (explorations (length txs) (\<lambda>i. cover txs {i})
          (threshold s txs) items)) = {}"
    using l1 l2 by fastforce
  with d1 d2 show ?thesis
    by (simp add: mined_def Let_def fi_def [symmetric] items_def [symmetric])
qed

subsection \<open>The threshold\<close>

lemma threshold_eq:
  "threshold s txs =
     int_of_float (round_float (min_support s * round_float (of_nat (length txs))))"
  by (simp add: threshold_def min_sup_count_of_def float_mul_def float_of_int_def)

lemma threshold_floor:
  assumes "0 \<le> min_support s" "length txs < 2 ^ 53"
  shows "threshold s txs = \<lfloor>round_float (min_support s * of_nat (length txs))\<rfloor>"
proof -
  have "0 \<le> min_support s * of_nat (length txs)" using assms(1) by simp
  then have "0 \<le> round_float (min_support s * of_nat (length txs))" by (rule round_float_nonneg)
  then show ?thesis
    by (simp add: threshold_eq round_float_of_nat [OF assms(2)] int_of_float_def)
qed

lemma threshold_le:
  assumes "0 \<le> min_support s" "length txs < 2 ^ 53" "c \<le> length txs"
    and "min_support s * of_nat (length txs) \<le> of_nat c"
  shows "threshold s txs \<le> int c"
proof -
  have c: "c < 2 ^ 53" using assms(2,3) by simp
  have "0 \<le> min_support s * of_nat (length txs)" using assms(1) by simp
  then have "round_float (min_support s * of_nat (length txs)) \<le> round_float (of_nat c)"
    using assms(4) by (rule round_float_mono)
  then have "round_float (min_support s * of_nat (length txs)) \<le> of_int (int c)"
    by (simp add: round_float_of_nat [OF c])
  then have "\<lfloor>round_float (min_support s * of_nat (length txs))\<rfloor> \<le> \<lfloor>(of_int (int c) :: rat)\<rfloor>"
    by (rule floor_mono)
  then have "\<lfloor>round_float (min_support s * of_nat (length txs))\<rfloor> \<le> int c"
    by (simp only: floor_of_int)
  then show ?thesis by (simp add: threshold_floor [OF assms(1,2)])
qed

lemma threshold_bounds:
  assumes "0 \<le> min_support s" "min_support s \<le> 1" "length txs < 2 ^ 52"
  shows "\<lfloor>min_support s * of_nat (length txs)\<rfloor> \<le> threshold s txs"
    and "threshold s txs \<le> \<lfloor>min_support s * of_nat (length txs)\<rfloor> + 1"
proof -
  define x where "x = min_support s * of_nat (length txs)"
  define k where "k = nat \<lfloor>x\<rfloor>"
  have x0: "0 \<le> x" using assms(1) by (simp add: x_def)
  have "x \<le> 1 * of_nat (length txs)"
    unfolding x_def using assms(2) by (intro mult_right_mono) simp_all
  then have "\<lfloor>x\<rfloor> \<le> \<lfloor>(of_nat (length txs) :: rat)\<rfloor>" by (intro floor_mono) simp
  then have kn: "k \<le> length txs" using x0 by (simp add: k_def)
  have k: "int k = \<lfloor>x\<rfloor>" using x0 by (simp add: k_def)
  have n: "length txs < 2 ^ 53" using assms(3) by (simp add: order_less_trans)
  have k1: "k < 2 ^ 53" "Suc k < 2 ^ 53" using kn assms(3) by simp_all
  have t: "threshold s txs = \<lfloor>round_float x\<rfloor>"
    unfolding x_def by (rule threshold_floor [OF assms(1) n])
  have lo: "of_nat k \<le> x" using k of_int_floor_le [of x] by (metis of_int_of_nat_eq)
  have hi: "x \<le> of_nat (Suc k)"
  proof -
    have "x < of_int (\<lfloor>x\<rfloor> + 1)" by linarith
    also have "\<dots> = of_nat (Suc k)" using k by (metis of_int_of_nat_eq of_nat_Suc of_int_add of_int_1 add.commute)
    finally show ?thesis by simp
  qed
  have "round_float (of_nat k) \<le> round_float x" using lo by (intro round_float_mono) simp_all
  then have "of_int (int k) \<le> round_float x" by (simp add: round_float_of_nat [OF k1(1)])
  then have "int k \<le> \<lfloor>round_float x\<rfloor>" by (simp only: le_floor_iff)
  then show "\<lfloor>min_support s * of_nat (length txs)\<rfloor> \<le> threshold s txs"
    by (simp add: t k x_def [symmetric])
  have "round_float x \<le> round_float (of_nat (Suc k))" using x0 hi by (rule round_float_mono)
  then have "round_float x \<le> of_int (int (Suc k))"
    by (simp only: round_float_of_nat [OF k1(2)] of_int_of_nat_eq)
  then have "\<lfloor>round_float x\<rfloor> \<le> \<lfloor>(of_int (int (Suc k)) :: rat)\<rfloor>"
    by (rule floor_mono)
  then have "\<lfloor>round_float x\<rfloor> \<le> int (Suc k)"
    by (simp only: floor_of_int)
  then show "threshold s txs \<le> \<lfloor>min_support s * of_nat (length txs)\<rfloor> + 1"
    using k by (simp add: t x_def [symmetric])
qed

subsection \<open>Runs\<close>

lemma generate_rules_frame:
  assumes "generate_rules s = Inr r"
  shows "r = s\<lparr>rules := rules r\<rparr>"
  using assms by (auto simp: generate_rules_def split: sum.splits)

lemma fit_Inr:
  assumes "fit s txs = Inr r"
  shows "generate_rules (indexed s txs\<lparr>frequent_itemsets := frequent_itemsets s @ mined s txs\<rparr>)
           = Inr r"
  using assms by (simp add: fit_def mine_mined)

lemma run_itemsets:
  assumes "mine s txs = Inr s' \<or> fit s txs = Inr s'"
  shows "frequent_itemsets s' = frequent_itemsets s @ mined s txs"
  using assms
proof
  assume "mine s txs = Inr s'"
  then show ?thesis by (auto simp: mine_mined)
next
  assume "fit s txs = Inr s'"
  from generate_rules_frame [OF fit_Inr [OF this]] have
    "frequent_itemsets s' = frequent_itemsets ((indexed s txs\<lparr>frequent_itemsets :=
        frequent_itemsets s @ mined s txs\<rparr>)\<lparr>rules := rules s'\<rparr>)"
    by simp
  then show ?thesis by simp
qed

subsection \<open>Rule generation\<close>

lemma combinations_subseq:
  "a \<in> set (combinations xs k) \<Longrightarrow> subseq a xs \<and> length a = k"
proof (induction xs k arbitrary: a rule: combinations.induct)
  case (1 xs)
  then show ?case by simp
next
  case (2 r)
  then show ?case by simp
next
  case (3 x xs r)
  from "3.prems" consider
      a' where "a = x # a'" "a' \<in> set (combinations xs r)"
    | "a \<in> set (combinations xs (Suc r))"
    by auto
  then show ?case
  proof cases
    case 1
    with "3.IH"(1) [of a'] show ?thesis by simp
  next
    case 2
    with "3.IH"(2) [of a] show ?thesis by (simp add: list_emb_Cons)
  qed
qed

lemma antecedents_subseq:
  assumes "a \<in> set (antecedents iset)"
  shows "subseq a iset \<and> 1 \<le> length a \<and> length a < length iset"
proof -
  from assms obtain k where "1 \<le> k" "k < length iset" "a \<in> set (combinations iset k)"
    by (auto simp: antecedents_def)
  with combinations_subseq [of a iset k] show ?thesis by simp
qed

lemma subseq_distinct: "subseq xs ys \<Longrightarrow> distinct ys \<Longrightarrow> distinct xs"
proof (induction rule: list_emb.induct)
  case (list_emb_Nil ys)
  then show ?case by simp
next
  case (list_emb_Cons xs ys y)
  then show ?case by simp
next
  case (list_emb_Cons2 x y xs ys)
  then show ?case using subseq_set [of xs ys] by auto
qed

lemma float_truediv_Inr:
  "float_truediv x y = Inr q \<longleftrightarrow> y \<noteq> 0 \<and> q = round_float (x / y)"
  by (auto simp: float_truediv_def)

lemma float_truediv_Inl: "float_truediv x y = Inl e \<Longrightarrow> e = ZeroDivisionError"
  by (auto simp: float_truediv_def split: if_splits)

lemma split_rule_Some:
  assumes "split_rule tbl minc iset isup a = Inr (Some r)"
  shows "antecedent r = a \<and> consequent r = filter (\<lambda>i. i \<notin> set a) iset \<and>
         rule_support r = isup \<and> minc \<le> confidence r \<and>
         (\<exists>asup. tbl (set a) = Some asup \<and> float_truediv isup asup = Inr (confidence r))"
  using assms
  by (auto simp: split_rule_def Let_def split: option.splits sum.splits if_splits)

lemma split_rule_Inl: "split_rule tbl minc iset isup a = Inl e \<Longrightarrow> e = ZeroDivisionError"
  by (auto simp: split_rule_def Let_def split: option.splits sum.splits if_splits
      dest: float_truediv_Inl)

lemma rules_of_splits_Inr:
  assumes "rules_of_splits tbl minc iset isup rs as = Inr rs'" "r \<in> set rs'"
  shows "r \<in> set rs \<or> (\<exists>a\<in>set as. split_rule tbl minc iset isup a = Inr (Some r))"
  using assms
proof (induction as arbitrary: rs)
  case Nil
  then show ?case by simp
next
  case (Cons a as)
  show ?case
  proof (cases "split_rule tbl minc iset isup a")
    case (Inl e)
    with Cons.prems show ?thesis by simp
  next
    case (Inr res)
    show ?thesis
    proof (cases res)
      case None
      with Inr Cons.prems Cons.IH [of rs] show ?thesis by auto
    next
      case (Some x)
      with Inr Cons.prems Cons.IH [of "rs @ [x]"] show ?thesis by auto
    qed
  qed
qed

lemma rules_of_splits_Inl:
  "rules_of_splits tbl minc iset isup rs as = Inl e \<Longrightarrow> e = ZeroDivisionError"
proof (induction as arbitrary: rs)
  case Nil
  then show ?case by simp
next
  case (Cons a as)
  then show ?case
    by (auto split: sum.splits option.splits dest: split_rule_Inl)
qed

lemma rules_of_itemsets_Inr:
  assumes "rules_of_itemsets tbl minc rs fis = Inr rs'" "r \<in> set rs'"
  shows "r \<in> set rs \<or>
         (\<exists>fs\<in>set fis. 2 \<le> length (itemset fs) \<and>
            (\<exists>a\<in>set (antecedents (itemset fs)).
               split_rule tbl minc (itemset fs) (support fs) a = Inr (Some r)))"
  using assms
proof (induction fis arbitrary: rs)
  case Nil
  then show ?case by simp
next
  case (Cons fs fis)
  show ?case
  proof (cases "length (itemset fs) < 2")
    case True
    with Cons.prems Cons.IH [of rs] show ?thesis by auto
  next
    case False
    with Cons.prems obtain rs1 where
      rs1: "rules_of_splits tbl minc (itemset fs) (support fs) rs (antecedents (itemset fs)) = Inr rs1"
        "rules_of_itemsets tbl minc rs1 fis = Inr rs'"
      by (auto split: sum.splits)
    from Cons.IH [OF rs1(2) Cons.prems(2)] show ?thesis
    proof
      assume "r \<in> set rs1"
      from rules_of_splits_Inr [OF rs1(1) this] False show ?thesis by auto
    next
      assume "\<exists>fs\<in>set fis. 2 \<le> length (itemset fs) \<and>
            (\<exists>a\<in>set (antecedents (itemset fs)).
               split_rule tbl minc (itemset fs) (support fs) a = Inr (Some r))"
      then show ?thesis by auto
    qed
  qed
qed

lemma rules_of_itemsets_Inl:
  "rules_of_itemsets tbl minc rs fis = Inl e \<Longrightarrow> e = ZeroDivisionError"
proof (induction fis arbitrary: rs)
  case Nil
  then show ?case by simp
next
  case (Cons fs fis)
  then show ?case
    by (auto split: sum.splits if_splits dest: rules_of_splits_Inl)
qed

lemma generate_rules_Inr:
  assumes "generate_rules s = Inr s'" "r \<in> set (rules s')"
  shows "\<exists>fs\<in>set (frequent_itemsets s). 2 \<le> length (itemset fs) \<and>
           (\<exists>a\<in>set (antecedents (itemset fs)).
              split_rule (itemset_support_of (frequent_itemsets s)) (min_confidence s)
                (itemset fs) (support fs) a = Inr (Some r))"
proof -
  from assms(1) obtain rs where
    rs: "rules_of_itemsets (itemset_support_of (frequent_itemsets s)) (min_confidence s) []
           (frequent_itemsets s) = Inr rs" "s' = s\<lparr>rules := rs\<rparr>"
    by (auto simp: generate_rules_def split: sum.splits)
  from assms(2) rs(2) have "r \<in> set rs" by simp
  from rules_of_itemsets_Inr [OF rs(1) this] show ?thesis by simp
qed

lemma generate_rules_Inl: "generate_rules s = Inl e \<Longrightarrow> e = ZeroDivisionError"
  by (auto simp: generate_rules_def split: sum.splits dest: rules_of_itemsets_Inl)

lemma itemset_support_fold:
  assumes "fold (\<lambda>fs m. m(set (itemset fs) \<mapsto> support fs)) fis m S = Some v"
  shows "m S = Some v \<or> (\<exists>fs\<in>set fis. set (itemset fs) = S \<and> support fs = v)"
  using assms
proof (induction fis arbitrary: m)
  case Nil
  then show ?case by simp
next
  case (Cons fs fis)
  from Cons.IH [of "m(set (itemset fs) \<mapsto> support fs)"] Cons.prems
  show ?case by (auto split: if_splits)
qed

lemma itemset_support_of_Some:
  assumes "itemset_support_of fis S = Some v"
  shows "\<exists>fs\<in>set fis. set (itemset fs) = S \<and> support fs = v"
  using itemset_support_fold [of fis Map.empty S v] assms by (simp add: itemset_support_of_def)

lemma fit_rule_origin:
  assumes "frequent_itemsets s = []" "fit s txs = Inr s'" "r \<in> set (rules s')"
  obtains fs a asup where
    "fs \<in> set (frequent_itemsets s')" "well_mined s txs fs" "2 \<le> length (itemset fs)"
    "subseq a (itemset fs)" "1 \<le> length a" "length a < length (itemset fs)"
    "antecedent r = a" "consequent r = filter (\<lambda>i. i \<notin> set a) (itemset fs)"
    "rule_support r = support fs" "min_confidence s \<le> confidence r"
    "itemset_support_of (frequent_itemsets s') (set a) = Some asup"
    "float_truediv (support fs) asup = Inr (confidence r)"
proof -
  define m where "m = indexed s txs\<lparr>frequent_itemsets := frequent_itemsets s @ mined s txs\<rparr>"
  have g: "generate_rules m = Inr s'" unfolding m_def by (rule fit_Inr [OF assms(2)])
  have fm: "frequent_itemsets m = mined s txs" by (simp add: m_def assms(1))
  have fs': "frequent_itemsets s' = mined s txs"
    using run_itemsets [OF disjI2 [OF assms(2)]] assms(1) by simp
  have mc: "min_confidence m = min_confidence s" by (simp add: m_def)
  from generate_rules_Inr [OF g assms(3)] obtain fs a where
    fs: "fs \<in> set (mined s txs)" "2 \<le> length (itemset fs)" "a \<in> set (antecedents (itemset fs))"
      "split_rule (itemset_support_of (mined s txs)) (min_confidence s)
         (itemset fs) (support fs) a = Inr (Some r)"
    unfolding fm mc by blast
  from split_rule_Some [OF fs(4)] obtain asup where
    "antecedent r = a" "consequent r = filter (\<lambda>i. i \<notin> set a) (itemset fs)"
    "rule_support r = support fs" "min_confidence s \<le> confidence r"
    "itemset_support_of (mined s txs) (set a) = Some asup"
    "float_truediv (support fs) asup = Inr (confidence r)"
    by blast
  with fs(1,2) antecedents_subseq [OF fs(3)] mined_sound [OF fs(1)] show ?thesis
    by (intro that [of fs a asup]) (simp_all add: fs')
qed

lemma default_support_value: "default_support = 7378697629483821 / 73786976294838206464"
  by code_simp

subsection \<open>When \<open>fit\<close> returns\<close>

lemma round_float_nonpos:
  assumes "x \<le> 0"
  shows "round_float x \<le> 0"
proof (cases "x = 0")
  case True
  then show ?thesis by (simp add: round_float_def)
next
  case False
  define u :: rat where "u = 2 powi (max (float_exponent x) (- 1022) - 52)"
  have u: "0 < u" unfolding u_def by (rule pow2_pos)
  have "x / u \<le> 0" using assms u by (simp add: divide_le_0_iff)
  then have "round_half_even (x / u) \<le> round_half_even 0" by (rule round_half_even_mono)
  then have "round_half_even (x / u) \<le> 0" by (simp add: round_half_even_def)
  then have "(of_int (round_half_even (x / u)) :: rat) \<le> 0" by simp
  then have "of_int (round_half_even (x / u)) * u \<le> 0"
    using u by (simp add: mult_le_0_iff)
  then show ?thesis
    using False by (simp add: round_float_def Let_def u_def [symmetric])
qed

lemma threshold_nonpos:
  assumes "min_support s \<le> 0" "length txs < 2 ^ 53"
  shows "threshold s txs \<le> 0"
proof -
  define y where "y = round_float (min_support s * of_nat (length txs))"
  have "min_support s * of_nat (length txs) \<le> 0"
    using assms(1) by (simp add: mult_le_0_iff)
  then have "y \<le> 0" unfolding y_def by (rule round_float_nonpos)
  then have "int_of_float y \<le> 0"
    by (auto simp: int_of_float_def ceiling_le_iff)
  then show ?thesis
    by (simp add: threshold_eq round_float_of_nat [OF assms(2)] y_def)
qed

lemma round_float_pow2:
  assumes "- 1022 \<le> e"
  shows "round_float (2 powi e) = 2 powi e"
proof -
  have "(2::rat) powi e < 2 powi (e + 1)" by (rule pow2_strict_mono) simp
  then have "round_float (2 powi e)
      = of_int (round_half_even (2 powi e / 2 powi (e - 52))) * 2 powi (e - 52)"
    using assms by (intro round_float_eq) simp_all
  moreover have q: "(2::rat) powi e / 2 powi (e - 52) = of_int (2 ^ 52)"
    by (simp add: power_int_diff [symmetric])
  moreover have "round_half_even (of_int (2 ^ 52)) = 2 ^ 52"
    by (rule round_half_even_of_int)
  moreover have "of_int (2 ^ 52) * 2 powi (e - 52) = (2::rat) powi e"
  proof -
    have "(2::rat) powi e = 2 powi (52 + (e - 52))" by simp
    also have "\<dots> = 2 powi 52 * 2 powi (e - 52)" by (subst power_int_add) simp_all
    finally show ?thesis by simp
  qed
  ultimately show ?thesis by (simp only:)
qed

lemma round_float_pos:
  assumes "2 powi (- 53) \<le> x"
  shows "0 < round_float x"
proof -
  have "round_float (2 powi (- 53)) \<le> round_float x"
    using assms by (intro round_float_mono) (simp_all add: power_int_def)
  moreover have "round_float (2 powi (- 53)) = 2 powi (- 53)"
    by (rule round_float_pow2) simp
  ultimately have "2 powi (- 53) \<le> round_float x" by (simp only:)
  with pow2_pos [of "- 53"] show ?thesis by linarith
qed

lemma well_mined_support_pos:
  assumes "well_mined s txs fs" "1 \<le> threshold s txs" "length txs < 2 ^ 53"
  shows "0 < support fs"
proof -
  define c where "c = card (tid_list fs)"
  define n where "n = length txs"
  from assms(1,2) have c: "1 \<le> c" and sf: "support fs = round_float (of_nat c / of_nat n)"
    by (simp_all add: well_mined_def c_def n_def)
  have "c \<le> n" using assms(1) cover_bound [of txs "set (itemset fs)"]
    by (simp add: well_mined_def c_def n_def)
  with c have n: "1 \<le> n" by simp
  have "(of_nat n :: rat) < of_nat (2 ^ 53)" using assms(3) unfolding n_def by (simp only: of_nat_less_iff)
  then have "(of_nat n :: rat) \<le> 2 ^ 53" by simp
  then have "1 / 2 ^ 53 \<le> 1 / (of_nat n :: rat)"
    using n by (intro divide_left_mono) simp_all
  also have "\<dots> \<le> of_nat c / of_nat n"
    using c by (intro divide_right_mono) simp_all
  finally have "1 / 2 ^ 53 \<le> (of_nat c / of_nat n :: rat)" .
  moreover have "(2::rat) powi (- 53) = 1 / 2 ^ 53"
    by (simp only: power_int_minus_divide power_int_numeral)
  ultimately have "2 powi (- 53) \<le> (of_nat c / of_nat n :: rat)" by (simp only:)
  then show ?thesis unfolding sf by (rule round_float_pos)
qed

lemma split_rule_returns:
  assumes "\<forall>S v. tbl S = Some v \<longrightarrow> v \<noteq> 0"
  shows "\<exists>res. split_rule tbl minc iset isup a = Inr res"
proof -
  have "default_support \<noteq> 0" by (simp add: default_support_value)
  with assms show ?thesis
    by (auto simp: split_rule_def Let_def float_truediv_def split: option.splits)
qed

lemma rules_of_splits_returns:
  assumes "\<forall>S v. tbl S = Some v \<longrightarrow> v \<noteq> 0"
  shows "\<exists>rs'. rules_of_splits tbl minc iset isup rs as = Inr rs'"
proof (induction as arbitrary: rs)
  case Nil
  then show ?case by simp
next
  case (Cons a as)
  from split_rule_returns [OF assms, of minc iset isup a] obtain res where
    "split_rule tbl minc iset isup a = Inr res" by blast
  then show ?case
    using Cons.IH by (cases res) simp_all
qed

lemma rules_of_itemsets_returns:
  assumes "\<forall>S v. tbl S = Some v \<longrightarrow> v \<noteq> 0"
  shows "\<exists>rs'. rules_of_itemsets tbl minc rs fis = Inr rs'"
proof (induction fis arbitrary: rs)
  case Nil
  then show ?case by simp
next
  case (Cons fs fis)
  from rules_of_splits_returns [OF assms, of minc "itemset fs" "support fs" rs "antecedents (itemset fs)"]
  obtain rs1 where
    "rules_of_splits tbl minc (itemset fs) (support fs) rs (antecedents (itemset fs)) = Inr rs1"
    by blast
  then show ?case
    using Cons.IH [of rs] Cons.IH [of rs1] by simp
qed

lemma fit_returns:
  assumes "frequent_itemsets s = []" "1 \<le> threshold s txs" "length txs < 2 ^ 53"
  shows "\<exists>s'. fit s txs = Inr s'"
proof -
  define m where "m = indexed s txs\<lparr>frequent_itemsets := mined s txs\<rparr>"
  have m: "mine s txs = Inr m" by (simp add: mine_mined assms(1) m_def)
  have "v \<noteq> 0" if "itemset_support_of (frequent_itemsets m) S = Some v" for S v
  proof -
    from itemset_support_of_Some [OF that] obtain fs where
      "fs \<in> set (mined s txs)" "support fs = v" by (auto simp: m_def)
    with well_mined_support_pos [OF mined_sound assms(2,3), of fs] show ?thesis by auto
  qed
  then have "\<forall>S v. itemset_support_of (frequent_itemsets m) S = Some v \<longrightarrow> v \<noteq> 0" by blast
  from rules_of_itemsets_returns [OF this, of "min_confidence m" "[]" "frequent_itemsets m"]
  show ?thesis
    by (auto simp: fit_def m generate_rules_def)
qed

subsection \<open>Evaluation on concrete inputs\<close>

text \<open>
  The runs on the concrete inputs are evaluated inside the logic, from the code
  equations of the definitions.
\<close>

lemma init_fresh: "frequent_itemsets init = []"
  by (simp add: init_def)

lemma worked_fresh: "frequent_itemsets worked_eclat = []"
  by (simp add: worked_eclat_def init_def)

lemma worked_threshold: "threshold worked_eclat worked_transactions = 2"
  by code_simp

lemma worked_min_support: "0 \<le> min_support worked_eclat \<and> min_support worked_eclat \<le> 1"
  by code_simp

lemma worked_min_confidence: "min_confidence worked_eclat = 1 / 2"
  by code_simp

lemma worked_mine: "mine worked_eclat worked_transactions = Inr (worked_result\<lparr>rules := []\<rparr>)"
  by code_simp

lemma worked_fit: "fit worked_eclat worked_transactions = Inr worked_result"
  by code_simp

lemma cover_code:
  "cover txs S = Set.filter (\<lambda>tid. S \<subseteq> set (txs ! tid)) (set [0..<length txs])"
  by (auto simp: cover_def)

lemma worked_observed_AB: "{''A'', ''B''} \<subseteq> observed worked_transactions"
  by code_simp

lemma worked_support_AB:
  "min_support worked_eclat \<le> exact_support worked_transactions {''A'', ''B''}"
  unfolding exact_support_def cover_code by code_simp

lemma worked_support_ABC: "exact_support worked_transactions {''A'', ''B'', ''C''} = 1 / 5"
  unfolding exact_support_def cover_code by code_simp



lemma fit_can_raise: "fit init [[''A''], [''B''], [''C'']] = Inl ZeroDivisionError"
  by code_simp

section \<open>The claims\<close>

text \<open>
  A fresh object is one whose \<^verbatim>\<open>frequent_itemsets\<close> is empty, as \<^verbatim>\<open>__init__\<close> leaves it:
  \<^verbatim>\<open>fit\<close> appends to the list and never clears it. The parameters \<^verbatim>\<open>min_support\<close> and
  \<^verbatim>\<open>min_confidence\<close> of a fresh object are arbitrary. A run is \<open>mine\<close>, which always
  returns (lemma \<open>mine_mined\<close>), or \<open>fit\<close>, which returns when the threshold is at
  least 1 (lemma \<open>fit_returns\<close>) and can raise \<^verbatim>\<open>ZeroDivisionError\<close> in rule generation
  when it is 0 (lemma \<open>fit_can_raise\<close>): an itemset with an empty tid-list is then
  emitted with support \<^verbatim>\<open>0.0\<close>, and the confidence of a rule with such an antecedent
  divides by it.
\<close>

text \<open>
  C1, as amended. On the worked example (\<^verbatim>\<open>min_support = 0.4\<close>, \<^verbatim>\<open>min_confidence = 0.5\<close>,
  five transactions) the threshold is 2 and \<^verbatim>\<open>fit\<close> returns exactly the itemsets \<open>A\<close> and
  \<open>B\<close> with support \<^verbatim>\<open>0.8\<close>, \<open>C\<close> and \<open>A B\<close> with \<^verbatim>\<open>0.6\<close>, \<open>A C\<close> and \<open>B C\<close> with \<^verbatim>\<open>0.4\<close>
  (\<open>round_float (4 / 5)\<close> is the float the literal \<^verbatim>\<open>0.8\<close> denotes, and so on); \<open>A B C\<close>,
  of exact support \<open>1/5\<close>, is not among them. The one rule \<open>A \<Rightarrow> B\<close> is kept, with the
  float quotients as confidence and lift: \<open>3/4 - 2\<^sup>-\<^sup>5\<^sup>3\<close> (printed
  \<^verbatim>\<open>0.7499999999999999\<close>) and \<open>15/16 - 2\<^sup>-\<^sup>5\<^sup>2\<close> (printed \<^verbatim>\<open>0.9374999999999998\<close>), each
  within \<open>10\<^sup>-\<^sup>9\<close> of \<open>0.75\<close> and \<open>0.9375\<close>.
\<close>

theorem worked_example:
  "threshold worked_eclat worked_transactions = 2 \<and>
   fit worked_eclat worked_transactions = Inr worked_result \<and>
   res_frequent_itemsets (get_results worked_result) =
     [([''A''], round_float (4 / 5)), ([''B''], round_float (4 / 5)),
      ([''C''], round_float (3 / 5)), ([''A'', ''B''], round_float (3 / 5)),
      ([''A'', ''C''], round_float (2 / 5)), ([''B'', ''C''], round_float (2 / 5))] \<and>
   [''A'', ''B'', ''C''] \<notin> set (map itemset (frequent_itemsets worked_result)) \<and>
   exact_support worked_transactions {''A'', ''B'', ''C''} = 1 / 5 \<and>
   filter (\<lambda>x. antecedent x = [''A''] \<and> consequent x = [''B'']) (rules worked_result) =
     [\<lparr>antecedent = [''A''], consequent = [''B''], rule_support = round_float (3 / 5),
       confidence = 3 / 4 - 1 / 2 ^ 53, lift = 15 / 16 - 1 / 2 ^ 52\<rparr>] \<and>
   min_confidence worked_eclat \<le> 3 / 4 - 1 / 2 ^ 53 \<and>
   \<bar>(3 / 4 - 1 / 2 ^ 53) - 3 / 4 :: rat\<bar> \<le> 1 / 10 ^ 9 \<and>
   \<bar>(15 / 16 - 1 / 2 ^ 52) - 15 / 16 :: rat\<bar> \<le> 1 / 10 ^ 9"
  using worked_fit worked_threshold worked_support_ABC
  by (simp add: worked_min_confidence get_results_def worked_result_def worked_itemsets_def
      worked_rules_def)

text \<open>
  C1, as stated, fails in its last part: the confidence of \<open>A \<Rightarrow> B\<close> is not \<^verbatim>\<open>0.75\<close> and
  its lift is not \<^verbatim>\<open>0.9375\<close>. Both \<^verbatim>\<open>3/5\<close> and \<^verbatim>\<open>4/5\<close> round on the way, and the float
  quotient \<^verbatim>\<open>0.6 / 0.8\<close> is one unit in the last place below \<open>3/4\<close>.
\<close>

theorem worked_confidence_not_exact:
  "fit worked_eclat worked_transactions = Inr worked_result \<and>
   antecedent (hd (rules worked_result)) = [''A''] \<and>
   consequent (hd (rules worked_result)) = [''B''] \<and>
   length (filter (\<lambda>x. antecedent x = [''A''] \<and> consequent x = [''B'']) (rules worked_result)) = 1 \<and>
   float_truediv (round_float (3 / 5)) (round_float (4 / 5))
     = Inr (confidence (hd (rules worked_result))) \<and>
   confidence (hd (rules worked_result)) \<noteq> 3 / 4 \<and>
   lift (hd (rules worked_result)) \<noteq> 15 / 16"
proof -
  have "float_truediv (round_float (3 / 5)) (round_float (4 / 5)) = Inr (3 / 4 - 1 / 2 ^ 53)"
    by code_simp
  then show ?thesis
    using worked_fit by (simp add: worked_result_def worked_rules_def)
qed

text \<open>
  C2. On the empty transaction list a fresh object raises nothing: \<^verbatim>\<open>fit\<close> returns with
  no tid-list, no frequent item (so the loop that divides by \<open>N\<close> has no iteration), no
  itemset and no rule, and \<^verbatim>\<open>get_results\<close> reports empty lists and zero counts.
\<close>

theorem fit_empty:
  assumes "frequent_itemsets s = []"
  shows "fit s [] = Inr (s\<lparr>rules := [], tid_lists := [], num_transactions := 0\<rparr>) \<and>
         frequent_items_of (build_tid_lists (s\<lparr>num_transactions := 0\<rparr>) []) = [] \<and>
         get_results (s\<lparr>rules := [], tid_lists := [], num_transactions := 0\<rparr>) =
           \<lparr>res_frequent_itemsets = [], res_rules = [], num_rules = 0, num_itemsets = 0\<rparr>"
  using assms
  by (simp add: fit_def mine_def build_tid_lists_def frequent_items_of_def generate_rules_def
      itemset_support_of_def get_results_def)

theorem fit_empty_witness:
  "frequent_itemsets init = [] \<and>
   fit init [] = Inr (init\<lparr>rules := [], tid_lists := [], num_transactions := 0\<rparr>) \<and>
   get_results (init\<lparr>rules := [], tid_lists := [], num_transactions := 0\<rparr>) =
     \<lparr>res_frequent_itemsets = [], res_rules = [], num_rules = 0, num_itemsets = 0\<rparr>"
  using fit_empty [OF init_fresh] init_fresh by simp

text \<open>
  C3. Completeness of the miner. Take a fresh object, fewer than \<open>2 ^ 53\<close> transactions
  (below that the conversion of \<open>N\<close> to a float is exact), and a set \<open>S\<close> of one to five
  items of the input whose exact support, the fraction of transactions containing all
  of \<open>S\<close>, is at least \<open>min_support\<close>. Then the mining steps return, \<^verbatim>\<open>frequent_itemsets\<close>
  has an entry whose items are exactly \<open>S\<close>, and \<^verbatim>\<open>fit\<close>, when it returns, returns the same
  entries.
\<close>

theorem miner_complete:
  assumes "frequent_itemsets s = []" "length transactions < 2 ^ 53"
    and "S \<noteq> {}" "finite S" "card S \<le> 5" "S \<subseteq> observed transactions"
    and "min_support s \<le> exact_support transactions S"
  shows "\<exists>m. mine s transactions = Inr m \<and>
           (\<exists>fs\<in>set (frequent_itemsets m). set (itemset fs) = S) \<and>
           (\<forall>r. fit s transactions = Inr r \<longrightarrow> frequent_itemsets r = frequent_itemsets m)"
proof -
  define n where "n = length transactions"
  define c where "c = card (cover transactions S)"
  define m where "m = indexed s transactions\<lparr>frequent_itemsets := mined s transactions\<rparr>"
  have m: "mine s transactions = Inr m"
    by (simp add: mine_mined assms(1) m_def)
  have fit: "frequent_itemsets r = frequent_itemsets m" if "fit s transactions = Inr r" for r
    using run_itemsets [OF disjI2 [OF that]] assms(1) by (simp add: m_def)
  have "observed transactions \<noteq> {}" using assms(3,6) by auto
  then have n0: "0 < n" by (auto simp: observed_def n_def)
  have cn: "c \<le> n" unfolding c_def n_def by (rule cover_bound)
  have "min_support s \<le> of_nat c / of_nat n"
    using assms(7) by (simp add: exact_support_def c_def n_def)
  then have prod: "min_support s * of_nat n \<le> of_nat c"
    using n0 by (simp add: pos_le_divide_eq)
  have t: "threshold s transactions \<le> int c"
  proof (cases "0 \<le> min_support s")
    case True
    then show ?thesis
      using assms(2) cn prod unfolding n_def by (intro threshold_le)
  next
    case False
    then have "threshold s transactions \<le> 0"
      using assms(2) by (intro threshold_nonpos) simp_all
    then show ?thesis by simp
  qed
  define fs where "fs = \<lparr>itemset = sorted_list_of_set S,
      support = round_float (of_nat c / of_nat n), tid_list = cover transactions S\<rparr>"
  have "length (sorted_list_of_set S) = card S" by simp
  moreover have "sorted_list_of_set S \<noteq> []" using assms(3,4) by simp
  ultimately have "well_mined s transactions fs"
    using assms(4,5,6) t
    by (simp add: well_mined_def fs_def c_def n_def)
  then have "fs \<in> set (frequent_itemsets m)" by (simp add: m_def mined_iff)
  moreover have "set (itemset fs) = S" using assms(4) by (simp add: fs_def)
  ultimately show ?thesis using m fit by blast
qed

theorem miner_complete_witness:
  "frequent_itemsets worked_eclat = [] \<and>
   min_support worked_eclat \<le> exact_support worked_transactions {''A'', ''B''} \<and>
   mine worked_eclat worked_transactions = Inr (worked_result\<lparr>rules := []\<rparr>) \<and>
   (\<exists>fs\<in>set (frequent_itemsets worked_result). set (itemset fs) = {''A'', ''B''})"
proof -
  have "length worked_transactions < 2 ^ 53" by (simp add: worked_transactions_def)
  moreover have "card {''A'', ''B''} \<le> 5" by simp
  ultimately show ?thesis
    using miner_complete [of worked_eclat worked_transactions "{''A'', ''B''}"]
      worked_fresh worked_observed_AB worked_support_AB worked_mine
    by auto
qed

text \<open>
  C4, as amended. The threshold that decides emission is the value \<^verbatim>\<open>fit\<close> computes,
  \<^verbatim>\<open>int(min_support * N)\<close> in binary64: the truncation of the rounded product. For
  \<open>0 \<le> min_support \<le> 1\<close> and fewer than \<open>2 ^ 52\<close> transactions it is the floor of the
  exact product or one more (when the product rounds up to the next integer). After a
  run on a fresh object an item of the input is emitted as a size-1 itemset if and only
  if the size of its tid-list is at least that threshold.
\<close>

theorem size1_emission_threshold:
  assumes "frequent_itemsets s = []"
    and "0 \<le> min_support s" "min_support s \<le> 1" "length transactions < 2 ^ 52"
    and "mine s transactions = Inr s' \<or> fit s transactions = Inr s'"
  shows "threshold s transactions
           = \<lfloor>round_float (min_support s * of_nat (length transactions))\<rfloor> \<and>
         \<lfloor>min_support s * of_nat (length transactions)\<rfloor> \<le> threshold s transactions \<and>
         threshold s transactions \<le> \<lfloor>min_support s * of_nat (length transactions)\<rfloor> + 1 \<and>
         ((\<exists>fs\<in>set (frequent_itemsets s'). itemset fs = [i]) \<longleftrightarrow>
            i \<in> observed transactions \<and>
            threshold s transactions \<le> int (card (cover transactions {i})))"
proof -
  have n: "length transactions < 2 ^ 53" using assms(4) by (simp add: order_less_trans)
  have fis: "frequent_itemsets s' = mined s transactions"
    using run_itemsets [OF assms(5)] assms(1) by simp
  have "(\<exists>fs\<in>set (mined s transactions). itemset fs = [i]) \<longleftrightarrow>
      i \<in> observed transactions \<and> threshold s transactions \<le> int (card (cover transactions {i}))"
    (is "?L \<longleftrightarrow> ?R")
  proof
    assume ?L
    then obtain fs where "well_mined s transactions fs" "itemset fs = [i]"
      by (auto simp: mined_iff)
    then show ?R by (simp add: well_mined_def)
  next
    assume r: ?R
    define fs where "fs = \<lparr>itemset = [i],
        support = round_float (of_nat (card (cover transactions {i}))
                    / of_nat (length transactions)),
        tid_list = cover transactions {i}\<rparr>"
    from r have "well_mined s transactions fs" by (simp add: well_mined_def fs_def)
    moreover have "itemset fs = [i]" by (simp add: fs_def)
    ultimately show ?L by (auto simp: mined_iff)
  qed
  then show ?thesis
    using threshold_floor [OF assms(2) n] threshold_bounds [OF assms(2,3,4)]
    by (simp add: fis)
qed

theorem size1_emission_threshold_witness:
  "frequent_itemsets worked_eclat = [] \<and>
   0 \<le> min_support worked_eclat \<and> min_support worked_eclat \<le> 1 \<and>
   fit worked_eclat worked_transactions = Inr worked_result \<and>
   threshold worked_eclat worked_transactions
     = \<lfloor>round_float (min_support worked_eclat * of_nat (length worked_transactions))\<rfloor> \<and>
   \<lfloor>min_support worked_eclat * of_nat (length worked_transactions)\<rfloor>
     \<le> threshold worked_eclat worked_transactions \<and>
   ''A'' \<in> observed worked_transactions \<and>
   threshold worked_eclat worked_transactions \<le> int (card (cover worked_transactions {''A''}))"
proof -
  have "length worked_transactions < 2 ^ 52" by (simp add: worked_transactions_def)
  moreover have "\<exists>fs\<in>set (frequent_itemsets worked_result). itemset fs = [''A'']"
    by (simp add: worked_result_def worked_itemsets_def)
  ultimately show ?thesis
    using size1_emission_threshold [of worked_eclat worked_transactions worked_result "''A''"]
      worked_fresh worked_min_support worked_fit
    by blast
qed

text \<open>
  C4, as stated, fails. With \<^verbatim>\<open>min_support = 0.6\<close> (the float just below
  \<open>6/10\<close>) and five transactions the exact product is below 3, with floor 2, but the
  float product rounds to \<open>3.0\<close> and the threshold is 3: item \<open>A\<close>, with a tid-list of
  size 2, is not emitted. Read with \<open>min_support\<close> as the decimal instead, the claim fails
  at \<^verbatim>\<open>min_support = 0.58\<close> and \<open>N = 50\<close>: the threshold is 28, the floor of
  \<open>0.58 \<sqdot> 50\<close> is 29.
\<close>

theorem threshold_not_exact_floor:
  "0 \<le> min_support rounding_eclat \<and> min_support rounding_eclat \<le> 1 \<and>
   \<lfloor>min_support rounding_eclat * of_nat (length rounding_transactions)\<rfloor> = 2 \<and>
   threshold rounding_eclat rounding_transactions = 3 \<and>
   card (cover rounding_transactions {''A''}) = 2 \<and>
   fit rounding_eclat rounding_transactions =
     Inr \<lparr>min_support = round_float (6 / 10), min_confidence = round_float (3 / 10),
          frequent_itemsets =
            [\<lparr>itemset = [''B''], support = round_float (3 / 5), tid_list = {2, 3, 4}\<rparr>],
          rules = [], tid_lists = [(''A'', {0, 1}), (''B'', {2, 3, 4})],
          num_transactions = 5\<rparr> \<and>
   threshold (init\<lparr>min_support := round_float (58 / 100)\<rparr>) (replicate 50 []) = 28 \<and>
   \<lfloor>(58 / 100 :: rat) * 50\<rfloor> = 29"
proof -
  have "0 \<le> min_support rounding_eclat \<and> min_support rounding_eclat \<le> 1"
    by code_simp
  moreover have "\<lfloor>min_support rounding_eclat * of_nat (length rounding_transactions)\<rfloor> = 2"
    by code_simp
  moreover have "threshold rounding_eclat rounding_transactions = 3"
    by code_simp
  moreover have "card (cover rounding_transactions {''A''}) = 2"
    unfolding cover_code by code_simp
  moreover have "fit rounding_eclat rounding_transactions =
     Inr \<lparr>min_support = round_float (6 / 10), min_confidence = round_float (3 / 10),
          frequent_itemsets =
            [\<lparr>itemset = [''B''], support = round_float (3 / 5), tid_list = {2, 3, 4}\<rparr>],
          rules = [], tid_lists = [(''A'', {0, 1}), (''B'', {2, 3, 4})],
          num_transactions = 5\<rparr>"
    by code_simp
  moreover have "threshold (init\<lparr>min_support := round_float (58 / 100)\<rparr>) (replicate 50 []) = 28"
    by code_simp
  moreover have "\<lfloor>(58 / 100 :: rat) * 50\<rfloor> = 29"
    by simp
  ultimately show ?thesis by blast
qed

text \<open>
  C5. Each itemset is generated exactly once: after a run on a fresh object (the mining
  steps alone, or the whole of \<^verbatim>\<open>fit\<close> when it returns) no two entries of
  \<^verbatim>\<open>frequent_itemsets\<close> have the same set of items, and the items of every entry
  are strictly increasing in the lexicographic order of the identifiers.
\<close>

theorem itemsets_generated_once:
  assumes "frequent_itemsets s = []"
    and "mine s transactions = Inr s' \<or> fit s transactions = Inr s'"
  shows "distinct (map (\<lambda>fs. set (itemset fs)) (frequent_itemsets s')) \<and>
         (\<forall>fs\<in>set (frequent_itemsets s'). sorted_wrt (<) (itemset fs))"
proof -
  have fis: "frequent_itemsets s' = mined s transactions"
    using run_itemsets [OF assms(2)] assms(1) by simp
  have sorted: "sorted_wrt (<) (itemset fs)" if "fs \<in> set (mined s transactions)" for fs
    using mined_sound [OF that] by (simp add: well_mined_def)
  have "inj_on set (set (map itemset (mined s transactions)))"
    by (rule inj_onI) (auto intro!: strictly_sorted_set_inj sorted)
  with mined_distinct [of s transactions]
  have "distinct (map set (map itemset (mined s transactions)))"
    by (simp only: distinct_map)
  then show ?thesis
    using sorted by (simp add: fis o_def)
qed

theorem itemsets_generated_once_witness:
  "frequent_itemsets worked_eclat = [] \<and>
   fit worked_eclat worked_transactions = Inr worked_result \<and>
   distinct (map (\<lambda>fs. set (itemset fs)) (frequent_itemsets worked_result)) \<and>
   list_all (\<lambda>fs. sorted_wrt (<) (itemset fs)) (frequent_itemsets worked_result)"
  using itemsets_generated_once [OF worked_fresh disjI2 [OF worked_fit]] worked_fresh worked_fit
  by (simp add: list_all_iff)

text \<open>
  C6. Anti-monotonicity of the recorded supports: of two entries of one run on a fresh
  object, the one whose items are a strict subset of the other's has a tid-list that
  contains the other's and a recorded support that is at least the other's. The
  tid-list of an entry is the intersection of the tid-lists of its items.
\<close>

theorem support_antimonotone:
  assumes "frequent_itemsets s = []"
    and "mine s transactions = Inr s' \<or> fit s transactions = Inr s'"
    and "a \<in> set (frequent_itemsets s')" "b \<in> set (frequent_itemsets s')"
    and "set (itemset a) \<subset> set (itemset b)"
  shows "support b \<le> support a \<and> tid_list b \<subseteq> tid_list a \<and>
         tid_list a = (\<Inter>i\<in>set (itemset a). cover transactions {i}) \<and>
         tid_list b = (\<Inter>i\<in>set (itemset b). cover transactions {i})"
proof -
  have fis: "frequent_itemsets s' = mined s transactions"
    using run_itemsets [OF assms(2)] assms(1) by simp
  from assms(3,4) have a: "well_mined s transactions a" and b: "well_mined s transactions b"
    by (simp_all add: fis mined_iff)
  have sub: "set (itemset a) \<subseteq> set (itemset b)" using assms(5) by auto
  have tl: "tid_list b \<subseteq> tid_list a"
    using a b cover_antimono [OF sub] by (simp add: well_mined_def)
  have "card (tid_list b) \<le> card (tid_list a)"
    using a by (intro card_mono tl) (simp add: well_mined_def)
  then have "(of_nat (card (tid_list b)) :: rat) / of_nat (length transactions)
      \<le> of_nat (card (tid_list a)) / of_nat (length transactions)"
    by (intro divide_right_mono) simp_all
  then have "round_float (of_nat (card (tid_list b)) / of_nat (length transactions))
      \<le> round_float (of_nat (card (tid_list a)) / of_nat (length transactions))"
    by (intro round_float_mono) simp_all
  with a b have "support b \<le> support a" by (simp add: well_mined_def)
  with tl well_mined_tid_list [OF a] well_mined_tid_list [OF b] show ?thesis by blast
qed

theorem support_antimonotone_witness:
  "support \<lparr>itemset = [''A'', ''B''], support = round_float (3 / 5), tid_list = {0, 1, 4}\<rparr>
     \<le> support \<lparr>itemset = [''A''], support = round_float (4 / 5), tid_list = {0, 1, 2, 4}\<rparr> \<and>
   round_float (3 / 5) \<le> round_float (4 / 5)"
  using support_antimonotone [OF worked_fresh disjI2 [OF worked_fit],
      of "\<lparr>itemset = [''A''], support = round_float (4 / 5), tid_list = {0, 1, 2, 4}\<rparr>"
         "\<lparr>itemset = [''A'', ''B''], support = round_float (3 / 5), tid_list = {0, 1, 4}\<rparr>"]
  by (auto simp: worked_result_def worked_itemsets_def)

text \<open>
  C7. Rule closure: every rule of a run of \<^verbatim>\<open>fit\<close> that returns, on a fresh object, has a
  non-empty antecedent and a non-empty consequent with no item in common, and their
  union is the set of items of an emitted itemset of size at least 2.
\<close>

theorem rule_closure:
  assumes "frequent_itemsets s = []" "fit s transactions = Inr s'" "r \<in> set (rules s')"
  shows "antecedent r \<noteq> [] \<and> consequent r \<noteq> [] \<and>
         set (antecedent r) \<inter> set (consequent r) = {} \<and>
         (\<exists>fs\<in>set (frequent_itemsets s'). 2 \<le> length (itemset fs) \<and>
            set (antecedent r) \<union> set (consequent r) = set (itemset fs))"
proof -
  from assms obtain fs a where
    fs: "fs \<in> set (frequent_itemsets s')" "well_mined s transactions fs" "2 \<le> length (itemset fs)"
    and a: "subseq a (itemset fs)" "1 \<le> length a" "length a < length (itemset fs)"
    and r: "antecedent r = a" "consequent r = filter (\<lambda>i. i \<notin> set a) (itemset fs)"
    by (rule fit_rule_origin)
  have d: "distinct (itemset fs)" using fs(2) by (simp add: well_mined_def strict_sorted_iff)
  have sub: "set a \<subseteq> set (itemset fs)" using a(1) by (rule subseq_set)
  have "card (set a) \<le> length a" by (rule card_length)
  also have "\<dots> < card (set (itemset fs))" using a(3) d by (simp add: distinct_card)
  finally have "set a \<noteq> set (itemset fs)" by auto
  with sub obtain i where "i \<in> set (itemset fs)" "i \<notin> set a" by auto
  then have "i \<in> set (consequent r)" by (simp add: r(2))
  then have c: "consequent r \<noteq> []" by auto
  have "set (antecedent r) \<union> set (consequent r) = set (itemset fs)"
    using sub by (auto simp: r)
  moreover have "set (antecedent r) \<inter> set (consequent r) = {}" by (auto simp: r)
  moreover have "antecedent r \<noteq> []" using a(2) by (auto simp: r(1))
  ultimately show ?thesis using c fs(1,3) by blast
qed

theorem rule_closure_witness:
  "frequent_itemsets worked_eclat = [] \<and>
   fit worked_eclat worked_transactions = Inr worked_result \<and>
   hd (rules worked_result) \<in> set (rules worked_result) \<and>
   antecedent (hd (rules worked_result)) = [''A''] \<and>
   consequent (hd (rules worked_result)) = [''B''] \<and>
   set (antecedent (hd (rules worked_result))) \<inter> set (consequent (hd (rules worked_result))) = {} \<and>
   (\<exists>fs\<in>set (frequent_itemsets worked_result). 2 \<le> length (itemset fs) \<and>
      set (antecedent (hd (rules worked_result))) \<union> set (consequent (hd (rules worked_result)))
        = set (itemset fs))"
proof -
  have "hd (rules worked_result) \<in> set (rules worked_result)"
    by (simp add: worked_result_def worked_rules_def)
  from rule_closure [OF worked_fresh worked_fit this] this worked_fresh worked_fit
  show ?thesis by (simp add: worked_result_def worked_rules_def)
qed

text \<open>
  C8. Confidence bound: every rule of a run of \<^verbatim>\<open>fit\<close> that returns, on a fresh object,
  has \<open>min_confidence \<le> confidence \<le> 1\<close>, and its confidence is the float quotient
  \<^verbatim>\<open>support(itemset) / support(antecedent)\<close> of the supports recorded for the emitted
  itemset the rule comes from and for the emitted itemset with the antecedent's items;
  it is within \<open>10\<^sup>-\<^sup>9\<close> of the exact quotient of these two supports.
\<close>

theorem confidence_bound:
  assumes "frequent_itemsets s = []" "fit s transactions = Inr s'" "r \<in> set (rules s')"
  shows "min_confidence s \<le> confidence r \<and> confidence r \<le> 1 \<and>
         (\<exists>fs\<in>set (frequent_itemsets s'). \<exists>fa\<in>set (frequent_itemsets s').
            set (itemset fs) = set (antecedent r) \<union> set (consequent r) \<and>
            set (itemset fa) = set (antecedent r) \<and>
            float_truediv (support fs) (support fa) = Inr (confidence r) \<and>
            \<bar>confidence r - support fs / support fa\<bar> \<le> 1 / 10 ^ 9)"
proof -
  from assms obtain fs a asup where
    fs: "fs \<in> set (frequent_itemsets s')" "well_mined s transactions fs"
    and a: "subseq a (itemset fs)"
    and r: "antecedent r = a" "consequent r = filter (\<lambda>i. i \<notin> set a) (itemset fs)"
      "min_confidence s \<le> confidence r"
    and t: "itemset_support_of (frequent_itemsets s') (set a) = Some asup"
      "float_truediv (support fs) asup = Inr (confidence r)"
    by (rule fit_rule_origin)
  have fis: "frequent_itemsets s' = mined s transactions"
    using run_itemsets [OF disjI2 [OF assms(2)]] assms(1) by simp
  from itemset_support_of_Some [OF t(1)] obtain fa where
    fa: "fa \<in> set (frequent_itemsets s')" "set (itemset fa) = set a" "support fa = asup"
    by blast
  then have wa: "well_mined s transactions fa" by (simp add: fis mined_iff)
  have sub: "set (itemset fa) \<subseteq> set (itemset fs)"
    using subseq_set [OF a] by (simp add: fa(2))
  define n :: rat where "n = of_nat (length transactions)"
  define cs :: rat where "cs = of_nat (card (cover transactions (set (itemset fs))))"
  define ca :: rat where "ca = of_nat (card (cover transactions (set (itemset fa))))"
  have "cs \<le> ca" unfolding cs_def ca_def using card_cover_antimono [OF sub] by simp
  then have "cs / n \<le> ca / n" by (intro divide_right_mono) (simp_all add: n_def)
  moreover have "0 \<le> cs / n" by (simp add: cs_def n_def)
  ultimately have le: "round_float (cs / n) \<le> round_float (ca / n)" by (intro round_float_mono)
  have sf: "support fs = round_float (cs / n)" "support fa = round_float (ca / n)"
    using fs(2) wa by (simp_all add: well_mined_def cs_def ca_def n_def)
  have s0: "0 \<le> support fs" unfolding sf by (rule round_float_nonneg) (simp add: cs_def n_def)
  from t(2) have nz: "asup \<noteq> 0" and conf: "confidence r = round_float (support fs / asup)"
    by (simp_all add: float_truediv_Inr)
  have "support fs \<le> asup" using le by (simp add: sf fa(3) [symmetric])
  with s0 nz have q: "0 \<le> support fs / asup" "support fs / asup \<le> 1" by simp_all
  have "round_float (support fs / asup) \<le> round_float (of_nat 1)"
    using q by (intro round_float_mono) simp_all
  also have "\<dots> = 1" using round_float_of_nat [of 1] by simp
  finally have "confidence r \<le> 1" by (simp add: conf)
  moreover have "set (itemset fs) = set (antecedent r) \<union> set (consequent r)"
    using subseq_set [OF a] by (auto simp: r)
  moreover have "\<bar>confidence r - support fs / support fa\<bar> \<le> 1 / 10 ^ 9"
  proof -
    have "\<bar>confidence r - support fs / asup\<bar> \<le> 1 / 2 ^ 53"
      unfolding conf using q by (rule round_float_error)
    also have "\<dots> \<le> (1 / 10 ^ 9 :: rat)" by simp
    finally show ?thesis by (simp only: fa(3))
  qed
  ultimately show ?thesis
    using r(3) fs(1) fa t(2) by (auto simp: r(1))
qed

theorem confidence_bound_witness:
  "frequent_itemsets worked_eclat = [] \<and>
   fit worked_eclat worked_transactions = Inr worked_result \<and>
   hd (rules worked_result) \<in> set (rules worked_result) \<and>
   min_confidence worked_eclat \<le> confidence (hd (rules worked_result)) \<and>
   confidence (hd (rules worked_result)) \<le> 1 \<and>
   confidence (hd (rules worked_result)) = 3 / 4 - 1 / 2 ^ 53"
proof -
  have "hd (rules worked_result) \<in> set (rules worked_result)"
    by (simp add: worked_result_def worked_rules_def)
  from confidence_bound [OF worked_fresh worked_fit this] this worked_fresh worked_fit
  show ?thesis by (simp add: worked_result_def worked_rules_def)
qed

text \<open>
  C9. Rule generation never fails on a missing support lookup: \<open>generate_rules\<close> never
  raises \<^verbatim>\<open>KeyError\<close>. For one antecedent of an itemset, when the antecedent's items are
  not a key of the support table the split yields no rule and no error; when they are a
  key and the consequent's items are not, the lift of a rule that passes the confidence
  filter is its confidence divided by the default \<^verbatim>\<open>0.0001\<close>, which is not zero, so that
  division raises nothing (the only error left is the one of the confidence division
  itself).
\<close>

theorem missing_support_lookups:
  "generate_rules s \<noteq> Inl KeyError \<and>
   (itemset_support (set ante) = None \<longrightarrow>
      split_rule itemset_support min_conf iset itemset_sup ante = Inr None) \<and>
   (itemset_support (set ante) = Some antecedent_sup \<and>
    itemset_support (set (filter (\<lambda>i. i \<notin> set ante) iset)) = None \<longrightarrow>
      split_rule itemset_support min_conf iset itemset_sup ante =
        (case float_truediv itemset_sup antecedent_sup of
           Inl e \<Rightarrow> Inl e
         | Inr conf \<Rightarrow>
             if min_conf \<le> conf then
               Inr (Some \<lparr>antecedent = ante,
                          consequent = filter (\<lambda>i. i \<notin> set ante) iset,
                          rule_support = itemset_sup, confidence = conf,
                          lift = round_float (conf / default_support)\<rparr>)
             else Inr None)) \<and>
   default_support = round_float (1 / 10000) \<and> default_support \<noteq> 0"
proof -
  have "generate_rules s \<noteq> Inl KeyError"
    using generate_rules_Inl [of s KeyError] by auto
  moreover have d: "default_support \<noteq> 0" by (simp add: default_support_value)
  moreover have "split_rule itemset_support min_conf iset itemset_sup ante = Inr None"
    if "itemset_support (set ante) = None"
    using that by (simp add: split_rule_def)
  moreover have "split_rule itemset_support min_conf iset itemset_sup ante =
        (case float_truediv itemset_sup antecedent_sup of
           Inl e \<Rightarrow> Inl e
         | Inr conf \<Rightarrow>
             if min_conf \<le> conf then
               Inr (Some \<lparr>antecedent = ante,
                          consequent = filter (\<lambda>i. i \<notin> set ante) iset,
                          rule_support = itemset_sup, confidence = conf,
                          lift = round_float (conf / default_support)\<rparr>)
             else Inr None)"
    if "itemset_support (set ante) = Some antecedent_sup"
      "itemset_support (set (filter (\<lambda>i. i \<notin> set ante) iset)) = None"
    using that d by (simp add: split_rule_def float_truediv_def split: sum.splits)
  ultimately show ?thesis by (simp add: default_support_def)
qed

theorem missing_support_lookups_witness:
  "split_rule [{''A''} \<mapsto> 1 / 2] (3 / 10) [''A'', ''B''] (1 / 4) [''B''] = Inr None \<and>
   split_rule [{''A''} \<mapsto> 1 / 2] (3 / 10) [''A'', ''B''] (1 / 4) [''A''] =
     Inr (Some \<lparr>antecedent = [''A''], consequent = [''B''], rule_support = 1 / 4,
                confidence = 1 / 2, lift = 5000\<rparr>)"
proof -
  have a: "[{''A''} \<mapsto> 1 / 2 :: rat] (set [''B'']) = None" by simp
  have b: "[{''A''} \<mapsto> 1 / 2 :: rat] (set [''A'']) = Some (1 / 2) \<and>
      [{''A''} \<mapsto> 1 / 2 :: rat] (set (filter (\<lambda>i. i \<notin> set [''A'']) [''A'', ''B''])) = None"
    by simp
  have c: "float_truediv (1 / 4) (1 / 2) = Inr (1 / 2)" by code_simp
  have d: "round_float (1 / (2 * default_support)) = 5000" by code_simp
  from missing_support_lookups [of _ "[{''A''} \<mapsto> 1 / 2]" "[''B'']" "3 / 10" "[''A'', ''B'']" "1 / 4"] a
  have 1: "split_rule [{''A''} \<mapsto> 1 / 2] (3 / 10) [''A'', ''B''] (1 / 4) [''B''] = Inr None"
    by blast
  from missing_support_lookups [of _ "[{''A''} \<mapsto> 1 / 2]" "[''A'']" "3 / 10" "[''A'', ''B'']" "1 / 4" "1 / 2"] b
  have "split_rule [{''A''} \<mapsto> 1 / 2] (3 / 10) [''A'', ''B''] (1 / 4) [''A''] =
        (case float_truediv (1 / 4) (1 / 2) of
           Inl e \<Rightarrow> Inl e
         | Inr conf \<Rightarrow>
             if 3 / 10 \<le> conf then
               Inr (Some \<lparr>antecedent = [''A''],
                          consequent = filter (\<lambda>i. i \<notin> set [''A'']) [''A'', ''B''],
                          rule_support = 1 / 4, confidence = conf,
                          lift = round_float (conf / default_support)\<rparr>)
             else Inr None)"
    by blast
  then have 2: "split_rule [{''A''} \<mapsto> 1 / 2] (3 / 10) [''A'', ''B''] (1 / 4) [''A''] =
     Inr (Some \<lparr>antecedent = [''A''], consequent = [''B''], rule_support = 1 / 4,
                confidence = 1 / 2, lift = 5000\<rparr>)"
    by (simp add: c d)
  from 1 2 show ?thesis by blast
qed



end
